theory Spec2Isabelle
  imports Main "HOL-Library.Word" "HOL-Library.Multiset"
begin

unbundle bit_operations_syntax

section \<open>Data model\<close>

text \<open>
  A team is a positive integer id, a pair is the two-element array \<open>[a, b]\<close> of the
  source, and a match is the object \<open>{ teams: [a, b], complete: false }\<close>. The used-team
  \<open>Set\<close> of the source is only ever asked for membership, so it is a HOL set.
\<close>

type_synonym team = nat
type_synonym pair = "nat \<times> nat"

record match =
  teams :: pair
  complete :: bool

definition mkMatch :: "pair \<Rightarrow> match" where
  "mkMatch p = \<lparr>teams = p, complete = False\<rparr>"

text \<open>
  The source has no \<open>throw\<close> and applies no operation that can throw to these values:
  a call returns a value, or, where it has a \<open>while\<close> loop, might not return. The loops
  are therefore option-valued, \<open>None\<close> standing for a call that never returns.
\<close>

section \<open>Pair generation\<close>

text \<open>
  \<open>generatePairs\<close> (and the identical \<open>generateAllPairs\<close>): the two nested \<open>for\<close>
  loops, \<open>i\<close> from 1 to \<open>teamCount\<close> and \<open>j\<close> from \<open>i + 1\<close> to \<open>teamCount\<close>.
\<close>

definition generatePairs :: "nat \<Rightarrow> pair list" where
  "generatePairs teamCount =
     concat (map (\<lambda>i. map (\<lambda>j. (i, j)) [i + 1 ..< teamCount + 1]) [1 ..< teamCount + 1])"

text \<open>The \<open>findIndex\<close> predicate of both removal loops: same two teams in either order.\<close>

definition samePair :: "pair \<Rightarrow> pair \<Rightarrow> bool" where
  "samePair t x = ((fst x = fst t \<and> snd x = snd t) \<or> (fst x = snd t \<and> snd x = fst t))"

text \<open>\<open>findIndex\<close> followed by \<open>splice(index, 1)\<close> when the index is not -1.\<close>

fun spliceFirst :: "('a \<Rightarrow> bool) \<Rightarrow> 'a list \<Rightarrow> 'a list" where
  "spliceFirst P [] = []"
| "spliceFirst P (x # xs) = (if P x then xs else x # spliceFirst P xs)"

section \<open>The plain variant: \<open>groupRounds\<close>\<close>

text \<open>
  The inner \<open>for\<close> loop of \<open>groupRounds\<close>: a match is accepted when neither team is
  used; after each element the loop leaves as soon as the round holds two matches.
\<close>

fun groupRounds_scan :: "match list \<Rightarrow> nat set \<Rightarrow> match list \<Rightarrow> match list" where
  "groupRounds_scan [] usedTeams round = round"
| "groupRounds_scan (m # rest) usedTeams round =
     (if fst (teams m) \<notin> usedTeams \<and> snd (teams m) \<notin> usedTeams
      then (if length (round @ [m]) = 2 then round @ [m]
            else groupRounds_scan rest (insert (snd (teams m)) (insert (fst (teams m)) usedTeams))
                   (round @ [m]))
      else (if length round = 2 then round else groupRounds_scan rest usedTeams round))"

text \<open>The removal loop: one \<open>findIndex\<close>/\<open>splice\<close> per match of the round.\<close>

definition groupRounds_remove :: "match list \<Rightarrow> match list \<Rightarrow> match list" where
  "groupRounds_remove round remaining =
     foldl (\<lambda>rem m. spliceFirst (\<lambda>x. samePair (teams m) (teams x)) rem) remaining round"

text \<open>
  The \<open>while (remaining.length > 0)\<close> loop. Not returning is the value \<open>None\<close>.
\<close>

partial_function (option) groupRounds_loop ::
  "match list \<Rightarrow> match list list \<Rightarrow> match list list option" where
  "groupRounds_loop remaining rounds =
     (if remaining = [] then Some rounds
      else if length (groupRounds_scan remaining {} []) < 2 then Some rounds
      else groupRounds_loop
             (groupRounds_remove (groupRounds_scan remaining {} []) remaining)
             (rounds @ [groupRounds_scan remaining {} []]))"

declare groupRounds_loop.simps [code]

definition groupRounds :: "pair list \<Rightarrow> match list list option" where
  "groupRounds pairs = groupRounds_loop (map mkMatch pairs) []"

text \<open>What the plain application stores for a team count.\<close>

definition regenerateSchedule :: "nat \<Rightarrow> match list list option" where
  "regenerateSchedule teamCount = groupRounds (generatePairs teamCount)"

section \<open>The load-balanced variant with a fixed opening round: \<open>scheduleRounds\<close>\<close>

text \<open>
  \<open>matchesCount\<close> is the object filled for the keys 1 to \<open>teamCount\<close> (and 1 to 4); the
  loop reads it only at team ids of generated pairs, which are such keys, so it is a total
  function here. \<open>playedPairs\<close> is the set of the keys \<open>"a-b"\<close>, one per ordered pair.
\<close>

definition round1 :: "match list" where
  "round1 = [\<lparr>teams = (1, 2), complete = False\<rparr>, \<lparr>teams = (3, 4), complete = False\<rparr>]"

definition notRound1 :: "pair \<Rightarrow> bool" where
  "notRound1 p =
     (\<not> ((fst p = 1 \<and> snd p = 2) \<or> (fst p = 2 \<and> snd p = 1) \<or>
         (fst p = 3 \<and> snd p = 4) \<or> (fst p = 4 \<and> snd p = 3)))"

definition initialMatchesCount :: "nat \<Rightarrow> nat" where
  "initialMatchesCount = (\<lambda>i. 0)(1 := 1, 2 := 1, 3 := 1, 4 := 1)"

definition initialPlayedPairs :: "pair set" where
  "initialPlayedPairs = {(1, 2), (2, 1), (3, 4), (4, 3)}"

definition pairSum :: "(nat \<Rightarrow> nat) \<Rightarrow> pair \<Rightarrow> nat" where
  "pairSum matchesCount p = matchesCount (fst p) + matchesCount (snd p)"

definition countMatch :: "pair \<Rightarrow> (nat \<Rightarrow> nat) \<Rightarrow> (nat \<Rightarrow> nat)" where
  "countMatch p matchesCount =
     (let c1 = matchesCount(fst p := matchesCount (fst p) + 1)
      in c1(snd p := c1 (snd p) + 1))"

text \<open>
  The inner \<open>for\<close> loop: the accepted pair is pushed, its teams and both key orders are
  recorded and both counters are incremented; the loop leaves at two matches.
\<close>

fun scheduleRounds_scan ::
  "pair list \<Rightarrow> nat set \<Rightarrow> pair set \<Rightarrow> (nat \<Rightarrow> nat) \<Rightarrow> match list
     \<Rightarrow> match list \<times> pair set \<times> (nat \<Rightarrow> nat)" where
  "scheduleRounds_scan [] usedTeams playedPairs matchesCount round =
     (round, playedPairs, matchesCount)"
| "scheduleRounds_scan (p # rest) usedTeams playedPairs matchesCount round =
     (if fst p \<notin> usedTeams \<and> snd p \<notin> usedTeams \<and> p \<notin> playedPairs
      then (if length (round @ [mkMatch p]) = 2
            then (round @ [mkMatch p],
                  insert (snd p, fst p) (insert p playedPairs), countMatch p matchesCount)
            else scheduleRounds_scan rest
                   (insert (snd p) (insert (fst p) usedTeams))
                   (insert (snd p, fst p) (insert p playedPairs))
                   (countMatch p matchesCount) (round @ [mkMatch p]))
      else (if length round = 2 then (round, playedPairs, matchesCount)
            else scheduleRounds_scan rest usedTeams playedPairs matchesCount round))"

definition scheduleRounds_remove :: "match list \<Rightarrow> pair list \<Rightarrow> pair list" where
  "scheduleRounds_remove round remainingPairs =
     foldl (\<lambda>rem m. spliceFirst (samePair (teams m)) rem) remainingPairs round"

text \<open>
  The \<open>while (remainingPairs.length > 0)\<close> loop. \<open>Array.prototype.sort\<close> is stable and
  sorts in place, so the scan and the removal both work on the sorted list.
\<close>

partial_function (option) scheduleRounds_loop ::
  "pair list \<Rightarrow> pair set \<Rightarrow> (nat \<Rightarrow> nat) \<Rightarrow> match list list \<Rightarrow> match list list option" where
  "scheduleRounds_loop remainingPairs playedPairs matchesCount rounds =
     (if remainingPairs = [] then Some rounds
      else case scheduleRounds_scan (sort_key (pairSum matchesCount) remainingPairs)
                  {} playedPairs matchesCount [] of
        (round, playedPairs', matchesCount') \<Rightarrow>
          if length round < 2 then Some rounds
          else scheduleRounds_loop
                 (scheduleRounds_remove round (sort_key (pairSum matchesCount) remainingPairs))
                 playedPairs' matchesCount' (rounds @ [round]))"

declare scheduleRounds_loop.simps [code]

definition scheduleRounds :: "nat \<Rightarrow> match list list option" where
  "scheduleRounds teamCount =
     scheduleRounds_loop (filter notRound1 (generatePairs teamCount))
       initialPlayedPairs initialMatchesCount [round1]"

section \<open>The seeded variant: \<open>seededShuffle\<close>, \<open>scheduleRounds\<close> on pairs, \<open>precomputeSchedules\<close>\<close>

text \<open>
  One call of the closure returned by \<open>mulberry32\<close>: the new state and the 32-bit value
  \<open>(t ^ (t >>> 14)) >>> 0\<close> that the source divides by \<open>4294967296\<close>. The state \<open>a\<close> of
  the source is a double that grows by \<open>0x6d2b79f5\<close> per call and stays an exact integer;
  every use of it goes through a 32-bit operator, so only its value modulo \<open>2 ^ 32\<close> is read.
\<close>

definition mulberry32 :: "32 word \<Rightarrow> 32 word \<times> 32 word" where
  "mulberry32 a =
     (let a1 = a + 0x6d2b79f5;
          t1 = (a1 XOR drop_bit 15 a1) * (a1 OR 1);
          t2 = t1 XOR (t1 + (t1 XOR drop_bit 7 t1) * (t1 OR 61))
      in (a1, t2 XOR drop_bit 14 t2))"

text \<open>
  \<open>Math.floor(random() * m)\<close> with \<open>random() = u / 2 ^ 32\<close>: the quotient is an exact
  double, and so is its product with a length below \<open>2 ^ 21\<close>, so the floor is the integer
  quotient of \<open>u * m\<close> by \<open>2 ^ 32\<close>.
\<close>

definition randomIndex :: "32 word \<Rightarrow> nat \<Rightarrow> nat" where
  "randomIndex u m = nat ((uint u * int m) div 2 ^ 32)"

text \<open>
  The \<open>while (m)\<close> loop of \<open>seededShuffle\<close>: the index is drawn with the old \<open>m\<close>, then
  \<open>m\<close> is decremented and positions \<open>m\<close> and \<open>i\<close> are swapped. Both lie inside the array
  since \<open>m\<close> starts at its length.
\<close>

fun seededShuffle_loop :: "nat \<Rightarrow> 'a list \<Rightarrow> 32 word \<Rightarrow> 'a list" where
  "seededShuffle_loop 0 arr a = arr"
| "seededShuffle_loop (Suc m) arr a =
     (case mulberry32 a of (a', u) \<Rightarrow>
        seededShuffle_loop m (arr[m := arr ! randomIndex u (Suc m), randomIndex u (Suc m) := arr ! m]) a')"

definition seededShuffle :: "'a list \<Rightarrow> nat \<Rightarrow> 'a list" where
  "seededShuffle array seed = seededShuffle_loop (length array) array (of_nat seed)"

definition normalizePair :: "pair \<Rightarrow> pair" where
  "normalizePair p = (if fst p < snd p then (fst p, snd p) else (snd p, fst p))"

text \<open>
  The inner \<open>for\<close> loop of the pair-list \<open>scheduleRounds\<close>: an accepted pair is spliced
  out of \<open>remaining\<close> at once, a rejected one stays and the index moves on. \<open>kept\<close> is
  the part of \<open>remaining\<close> before the index.
\<close>

fun scheduleRounds_pairs_scan ::
  "pair list \<Rightarrow> pair list \<Rightarrow> nat set \<Rightarrow> pair list \<Rightarrow> pair list \<times> pair list" where
  "scheduleRounds_pairs_scan [] kept usedTeams round = (round, kept)"
| "scheduleRounds_pairs_scan (p # rest) kept usedTeams round =
     (if fst p \<notin> usedTeams \<and> snd p \<notin> usedTeams
      then (if length (round @ [p]) = 2 then (round @ [p], kept @ rest)
            else scheduleRounds_pairs_scan rest kept
                   (insert (snd p) (insert (fst p) usedTeams)) (round @ [p]))
      else scheduleRounds_pairs_scan rest (kept @ [p]) usedTeams round)"

partial_function (option) scheduleRounds_pairs_loop ::
  "pair list \<Rightarrow> pair list list \<Rightarrow> pair list list option" where
  "scheduleRounds_pairs_loop remaining rounds =
     (if remaining = [] then Some rounds
      else case scheduleRounds_pairs_scan remaining [] {} [] of
        (round, remaining') \<Rightarrow>
          if length round = 2 then scheduleRounds_pairs_loop remaining' (rounds @ [round])
          else Some rounds)"

declare scheduleRounds_pairs_loop.simps [code]

definition scheduleRounds_pairs :: "pair list \<Rightarrow> pair list list option" where
  "scheduleRounds_pairs pairs = scheduleRounds_pairs_loop pairs []"

definition firstRound :: "pair list" where
  "firstRound = [(1, 2), (3, 4)]"

text \<open>The body of the \<open>for\<close> loop of \<open>precomputeSchedules\<close>, for one team count.\<close>

definition precomputeSchedules_body :: "nat \<Rightarrow> pair list list option" where
  "precomputeSchedules_body teamCount =
     map_option (\<lambda>remainingRounds. firstRound # remainingRounds)
       (scheduleRounds_pairs
          (seededShuffle
             (filter (\<lambda>p. normalizePair p \<notin> set (map normalizePair firstRound))
                (generatePairs teamCount))
             teamCount))"

text \<open>
  \<open>precomputeSchedules\<close>: the object with one entry per team count from 4 to 15, as an
  association list; it is returned only when every body returns.
\<close>

fun precomputeSchedules_for :: "nat list \<Rightarrow> (nat \<times> pair list list) list option" where
  "precomputeSchedules_for [] = Some []"
| "precomputeSchedules_for (teamCount # later) =
     (case precomputeSchedules_body teamCount of
        None \<Rightarrow> None
      | Some schedule \<Rightarrow>
          map_option (\<lambda>schedules. (teamCount, schedule) # schedules)
            (precomputeSchedules_for later))"

definition precomputeSchedules :: "(nat \<times> pair list list) list option" where
  "precomputeSchedules = precomputeSchedules_for [4 ..< 16]"

text \<open>The lookup \<open>schedules[teamCount] || []\<close> of the seeded application.\<close>

definition seededSchedule :: "nat \<Rightarrow> pair list list option" where
  "seededSchedule teamCount =
     map_option (\<lambda>schedules. case map_of schedules teamCount of None \<Rightarrow> [] | Some s \<Rightarrow> s)
       precomputeSchedules"

section \<open>Completion toggles\<close>

text \<open>
  \<open>toggleComplete\<close> of the two applications that keep the flag inside the match: the
  nested \<open>map\<close> with indices, flipping the flag where both indices are equal to the address.
\<close>

definition toggleComplete :: "nat \<Rightarrow> nat \<Rightarrow> match list list \<Rightarrow> match list list" where
  "toggleComplete roundIndex courtIndex rounds =
     map (\<lambda>(rIdx, round).
            map (\<lambda>(cIdx, m).
                   if rIdx = roundIndex \<and> cIdx = courtIndex
                   then m\<lparr>complete := \<not> complete m\<rparr> else m)
              (enumerate 0 round))
       (enumerate 0 rounds)"

text \<open>
  \<open>toggleMatchComplete\<close> of the seeded application. \<open>completedMatches\<close> is an object from
  round index to an array of court indices. \<open>new Set(array)\<close> keeps the first occurrence
  of each element in order, \<open>delete\<close> removes it, \<open>add\<close> appends it, and
  \<open>Array.from\<close> lists the set in insertion order.
\<close>

definition newSet :: "'a list \<Rightarrow> 'a list" where
  "newSet array = foldl (\<lambda>s x. if x \<in> set s then s else s @ [x]) [] array"

definition toggleMatchComplete ::
  "nat \<Rightarrow> nat \<Rightarrow> (nat \<rightharpoonup> nat list) \<Rightarrow> (nat \<rightharpoonup> nat list)" where
  "toggleMatchComplete roundIndex courtIndex prev =
     (let roundMatches = newSet (case prev roundIndex of None \<Rightarrow> [] | Some arr \<Rightarrow> arr)
      in prev(roundIndex \<mapsto>
           (if courtIndex \<in> set roundMatches then removeAll courtIndex roundMatches
            else roundMatches @ [courtIndex])))"

text \<open>The flag shown for a match: \<open>completedMatches[roundIndex]?.includes(courtIndex) ?? false\<close>.\<close>

definition isCompleted :: "(nat \<rightharpoonup> nat list) \<Rightarrow> nat \<Rightarrow> nat \<Rightarrow> bool" where
  "isCompleted completedMatches roundIndex courtIndex =
     (case completedMatches roundIndex of None \<Rightarrow> False | Some arr \<Rightarrow> courtIndex \<in> set arr)"

section \<open>Properties of schedules\<close>

definition teamsOf :: "pair \<Rightarrow> nat set" where
  "teamsOf p = {fst p, snd p}"

text \<open>No team occurs in two matches of the round.\<close>

fun roundDisjoint :: "pair list \<Rightarrow> bool" where
  "roundDisjoint [] = True"
| "roundDisjoint (p # ps) = ((\<forall>q \<in> set ps. teamsOf p \<inter> teamsOf q = {}) \<and> roundDisjoint ps)"

text \<open>No unordered pair occurs twice in the list of pairs.\<close>

definition noRepeat :: "pair list \<Rightarrow> bool" where
  "noRepeat ps = distinct (map normalizePair ps)"

section \<open>Auxiliary facts\<close>

lemma roundDisjoint_snoc:
  "roundDisjoint (ps @ [p]) = (roundDisjoint ps \<and> (\<forall>q \<in> set ps. teamsOf q \<inter> teamsOf p = {}))"
  by (induction ps) auto

lemma roundDisjoint_nth:
  "roundDisjoint ps = (\<forall>i < length ps. \<forall>j < length ps. i \<noteq> j \<longrightarrow> teamsOf (ps ! i) \<inter> teamsOf (ps ! j) = {})"
proof (induction ps)
  case Nil
  then show ?case by simp
next
  case (Cons p ps)
  show ?case
  proof
    assume a: "roundDisjoint (p # ps)"
    show "\<forall>i<length (p # ps). \<forall>j<length (p # ps). i \<noteq> j \<longrightarrow> teamsOf ((p # ps) ! i) \<inter> teamsOf ((p # ps) ! j) = {}"
    proof (intro allI impI)
      fix i j assume "i < length (p # ps)" "j < length (p # ps)" "i \<noteq> j"
      then show "teamsOf ((p # ps) ! i) \<inter> teamsOf ((p # ps) ! j) = {}"
        using a Cons.IH by (cases i; cases j) (auto simp: Int_commute)
    qed
  next
    assume a: "\<forall>i<length (p # ps). \<forall>j<length (p # ps). i \<noteq> j \<longrightarrow> teamsOf ((p # ps) ! i) \<inter> teamsOf ((p # ps) ! j) = {}"
    have "\<forall>q \<in> set ps. teamsOf p \<inter> teamsOf q = {}"
    proof
      fix q assume "q \<in> set ps"
      then obtain k where "k < length ps" "ps ! k = q" by (auto simp: in_set_conv_nth)
      with a[rule_format, of 0 "Suc k"] show "teamsOf p \<inter> teamsOf q = {}" by simp
    qed
    moreover have "roundDisjoint ps"
      unfolding Cons.IH
    proof (intro allI impI)
      fix i j assume "i < length ps" "j < length ps" "i \<noteq> j"
      with a[rule_format, of "Suc i" "Suc j"] show "teamsOf (ps ! i) \<inter> teamsOf (ps ! j) = {}" by simp
    qed
    ultimately show "roundDisjoint (p # ps)" by simp
  qed
qed

lemma samePair_normalize: "samePair t x \<Longrightarrow> normalizePair x = normalizePair t"
  by (auto simp: samePair_def normalizePair_def prod_eq_iff)

lemma samePair_refl: "samePair t t"
  by (simp add: samePair_def)

lemma samePair_teamsOf: "samePair t x \<Longrightarrow> teamsOf x = teamsOf t"
  by (auto simp: samePair_def teamsOf_def)

lemma spliceFirst_length:
  "\<exists>x \<in> set xs. P x \<Longrightarrow> Suc (length (spliceFirst P xs)) = length xs"
  by (induction xs) auto

lemma spliceFirst_keeps:
  "y \<in> set xs \<Longrightarrow> \<not> P y \<Longrightarrow> y \<in> set (spliceFirst P xs)"
  by (induction xs) auto

lemma spliceFirst_mset_key:
  assumes "\<exists>x \<in> set xs. P x" and "\<And>x. P x \<Longrightarrow> f x = k"
  shows "mset (map f (spliceFirst P xs)) + {#k#} = mset (map f xs)"
  using assms by (induction xs) auto

lemma groupRounds_scan_length:
  "length round < 2 \<Longrightarrow> length (groupRounds_scan xs usedTeams round) \<le> 2"
  by (induction xs usedTeams round rule: groupRounds_scan.induct) (auto simp: less_2_cases_iff)

lemma groupRounds_scan_set:
  "set (groupRounds_scan xs usedTeams round) \<subseteq> set round \<union> set xs"
  by (induction xs usedTeams round rule: groupRounds_scan.induct) auto

lemma groupRounds_scan_disjoint:
  "roundDisjoint (map teams round) \<Longrightarrow> (\<forall>m \<in> set round. teamsOf (teams m) \<subseteq> usedTeams)
   \<Longrightarrow> roundDisjoint (map teams (groupRounds_scan xs usedTeams round))"
proof (induction xs usedTeams round rule: groupRounds_scan.induct)
  case (1 usedTeams round)
  then show ?case by simp
next
  case (2 m rest usedTeams round)
  show ?case
  proof (cases "fst (teams m) \<notin> usedTeams \<and> snd (teams m) \<notin> usedTeams")
    case True
    have d: "roundDisjoint (map teams (round @ [m]))"
      using 2(3,4) True by (auto simp: roundDisjoint_snoc teamsOf_def)
    have u: "\<forall>x \<in> set (round @ [m]). teamsOf (teams x) \<subseteq> insert (snd (teams m)) (insert (fst (teams m)) usedTeams)"
      using 2(4) by (auto simp: teamsOf_def)
    show ?thesis
    proof (cases "length (round @ [m]) = 2")
      case l: True
      with True d show ?thesis by simp
    next
      case l: False
      from 2(1)[OF True l d u] True l show ?thesis by simp
    qed
  next
    case False
    show ?thesis
    proof (cases "length round = 2")
      case l: True
      with False 2(3) show ?thesis by auto
    next
      case l: False
      from 2(2)[OF False l 2(3) 2(4)] False l show ?thesis by auto
    qed
  qed
qed

lemma teamsOf_nonempty: "teamsOf t \<noteq> {}"
  by (simp add: teamsOf_def)

lemma splice_two:
  fixes g :: "'a \<Rightarrow> pair"
  assumes x1: "x1 \<in> set xs" and x2: "x2 \<in> set xs"
    and dis: "teamsOf t1 \<inter> teamsOf t2 = {}"
    and s1: "samePair t1 (g x1)" and s2: "samePair t2 (g x2)"
  shows "length (spliceFirst (\<lambda>x. samePair t2 (g x)) (spliceFirst (\<lambda>x. samePair t1 (g x)) xs)) + 2
           = length xs"
    and "mset (map (\<lambda>x. normalizePair (g x))
               (spliceFirst (\<lambda>x. samePair t2 (g x)) (spliceFirst (\<lambda>x. samePair t1 (g x)) xs)))
           + {#normalizePair t1, normalizePair t2#}
           = mset (map (\<lambda>x. normalizePair (g x)) xs)"
proof -
  let ?ys = "spliceFirst (\<lambda>x. samePair t1 (g x)) xs"
  have n: "\<not> samePair t1 (g x2)"
  proof
    assume "samePair t1 (g x2)"
    then have "teamsOf t1 = teamsOf t2"
      using s2 by (simp add: samePair_teamsOf[symmetric])
    with dis teamsOf_nonempty[of t1] show False by simp
  qed
  have in2: "x2 \<in> set ?ys"
    using x2 n by (rule spliceFirst_keeps)
  have l1: "Suc (length ?ys) = length xs"
    using x1 s1 by (intro spliceFirst_length) blast
  have l2: "Suc (length (spliceFirst (\<lambda>x. samePair t2 (g x)) ?ys)) = length ?ys"
    using in2 s2 by (intro spliceFirst_length) blast
  from l1 l2 show "length (spliceFirst (\<lambda>x. samePair t2 (g x)) ?ys) + 2 = length xs"
    by simp
  have m1: "mset (map (\<lambda>x. normalizePair (g x)) ?ys) + {#normalizePair t1#}
            = mset (map (\<lambda>x. normalizePair (g x)) xs)"
    using x1 s1 by (intro spliceFirst_mset_key) (auto simp: samePair_normalize)
  have m2: "mset (map (\<lambda>x. normalizePair (g x)) (spliceFirst (\<lambda>x. samePair t2 (g x)) ?ys))
              + {#normalizePair t2#}
            = mset (map (\<lambda>x. normalizePair (g x)) ?ys)"
    using in2 s2 by (intro spliceFirst_mset_key) (auto simp: samePair_normalize)
  from m1 m2 show "mset (map (\<lambda>x. normalizePair (g x))
               (spliceFirst (\<lambda>x. samePair t2 (g x)) ?ys))
           + {#normalizePair t1, normalizePair t2#}
           = mset (map (\<lambda>x. normalizePair (g x)) xs)"
    by (metis add_mset_add_single union_mset_add_mset_right add.commute add.assoc)
qed

lemma groupRounds_scan_two:
  assumes "\<not> length (groupRounds_scan remaining {} []) < 2"
  obtains m1 m2 where "groupRounds_scan remaining {} [] = [m1, m2]"
    and "m1 \<in> set remaining" and "m2 \<in> set remaining"
    and "teamsOf (teams m1) \<inter> teamsOf (teams m2) = {}"
proof -
  let ?r = "groupRounds_scan remaining {} []"
  have "length ?r \<le> 2" by (rule groupRounds_scan_length) simp
  with assms have "length ?r = 2" by simp
  then obtain m1 m2 where r: "?r = [m1, m2]"
    by (auto simp: length_Suc_conv numeral_2_eq_2)
  have "set ?r \<subseteq> set remaining" using groupRounds_scan_set[of remaining "{}" "[]"] by simp
  with r have i: "m1 \<in> set remaining" "m2 \<in> set remaining" by auto
  have "roundDisjoint (map teams ?r)" by (rule groupRounds_scan_disjoint) simp_all
  with r have "teamsOf (teams m1) \<inter> teamsOf (teams m2) = {}" by simp
  with r i that show thesis by blast
qed

lemma groupRounds_remove_length:
  assumes "\<not> length (groupRounds_scan remaining {} []) < 2"
  shows "length (groupRounds_remove (groupRounds_scan remaining {} []) remaining) + 2
           = length remaining"
proof -
  from assms obtain m1 m2 where r: "groupRounds_scan remaining {} [] = [m1, m2]"
    and i: "m1 \<in> set remaining" "m2 \<in> set remaining"
    and d: "teamsOf (teams m1) \<inter> teamsOf (teams m2) = {}"
    by (rule groupRounds_scan_two)
  show ?thesis
    unfolding r groupRounds_remove_def
    using splice_two(1)[of m1 remaining m2 "teams m1" "teams m2" teams, OF i d]
    by (simp add: samePair_refl)
qed

lemma groupRounds_remove_mset:
  assumes "\<not> length (groupRounds_scan remaining {} []) < 2"
  shows "mset (map (\<lambda>m. normalizePair (teams m))
                 (groupRounds_remove (groupRounds_scan remaining {} []) remaining))
           + mset (map (\<lambda>m. normalizePair (teams m)) (groupRounds_scan remaining {} []))
         = mset (map (\<lambda>m. normalizePair (teams m)) remaining)"
proof -
  from assms obtain m1 m2 where r: "groupRounds_scan remaining {} [] = [m1, m2]"
    and i: "m1 \<in> set remaining" "m2 \<in> set remaining"
    and d: "teamsOf (teams m1) \<inter> teamsOf (teams m2) = {}"
    by (rule groupRounds_scan_two)
  show ?thesis
    unfolding r groupRounds_remove_def
    using splice_two(2)[of m1 remaining m2 "teams m1" "teams m2" teams, OF i d]
    by (simp add: samePair_refl)
qed

lemma groupRounds_loop_rule:
  assumes "I remaining rounds"
    and "\<And>rem rs. I rem rs \<Longrightarrow> rem \<noteq> [] \<Longrightarrow> \<not> length (groupRounds_scan rem {} []) < 2
           \<Longrightarrow> I (groupRounds_remove (groupRounds_scan rem {} []) rem)
                 (rs @ [groupRounds_scan rem {} []])"
  shows "\<exists>rem r. groupRounds_loop remaining rounds = Some r \<and> I rem r"
  using assms(1)
proof (induction "length remaining" arbitrary: remaining rounds rule: less_induct)
  case less
  show ?case
  proof (cases "remaining = [] \<or> length (groupRounds_scan remaining {} []) < 2")
    case True
    then have "groupRounds_loop remaining rounds = Some rounds"
      by (subst groupRounds_loop.simps) auto
    with less.prems show ?thesis by blast
  next
    case False
    let ?r = "groupRounds_scan remaining {} []"
    from False have ne: "remaining \<noteq> []" and full: "\<not> length ?r < 2" by simp_all
    have "length (groupRounds_remove ?r remaining) < length remaining"
      using groupRounds_remove_length[OF full] by simp
    moreover have "I (groupRounds_remove ?r remaining) (rounds @ [?r])"
      using less.prems ne full by (rule assms(2))
    ultimately have "\<exists>rem r. groupRounds_loop (groupRounds_remove ?r remaining) (rounds @ [?r]) = Some r
                       \<and> I rem r"
      by (rule less.hyps)
    moreover have "groupRounds_loop remaining rounds
                   = groupRounds_loop (groupRounds_remove ?r remaining) (rounds @ [?r])"
      using ne full by (subst groupRounds_loop.simps) simp
    ultimately show ?thesis by simp
  qed
qed

lemma submultiset_distinct:
  assumes "mset xs \<subseteq># mset ys" and "distinct ys"
  shows "distinct xs"
proof -
  from assms(1) obtain C where "mset ys = mset xs + C"
    by (auto simp: mset_subset_eq_exists_conv)
  moreover obtain zs where "mset zs = C" using ex_mset by blast
  ultimately have "mset ys = mset (xs @ zs)" by simp
  then have "distinct ys = distinct (xs @ zs)" by (rule mset_eq_imp_distinct_iff)
  with assms(2) show ?thesis by simp
qed

lemma groupRounds_props:
  "\<exists>s. groupRounds pairs = Some s
       \<and> (\<forall>r \<in> set s. length r = 2 \<and> roundDisjoint (map teams r))
       \<and> mset (map (\<lambda>m. normalizePair (teams m)) (concat s)) \<subseteq># mset (map normalizePair pairs)"
proof -
  let ?key = "\<lambda>m. normalizePair (teams m)"
  let ?M = "mset (map normalizePair pairs)"
  define I :: "match list \<Rightarrow> match list list \<Rightarrow> bool"
    where "I = (\<lambda>rem rs. (\<forall>r \<in> set rs. length r = 2 \<and> roundDisjoint (map teams r))
              \<and> mset (map ?key (concat rs)) + mset (map ?key rem) = ?M)"
  have init: "I (map mkMatch pairs) []"
    by (simp add: I_def mkMatch_def multiset.map_comp comp_def)
  have step: "I (groupRounds_remove (groupRounds_scan rem {} []) rem)
                 (rs @ [groupRounds_scan rem {} []])"
    if inv: "I rem rs" and ne: "rem \<noteq> []"
      and full: "\<not> length (groupRounds_scan rem {} []) < 2" for rem rs
  proof -
    let ?r = "groupRounds_scan rem {} []"
    have "length ?r \<le> 2" by (rule groupRounds_scan_length) simp
    with full have l: "length ?r = 2" by simp
    have d: "roundDisjoint (map teams ?r)" by (rule groupRounds_scan_disjoint) simp_all
    have "mset (map ?key (concat (rs @ [?r]))) + mset (map ?key (groupRounds_remove ?r rem))
          = mset (map ?key (concat rs)) + (mset (map ?key (groupRounds_remove ?r rem)) + mset (map ?key ?r))"
      by (simp add: ac_simps)
    also have "\<dots> = mset (map ?key (concat rs)) + mset (map ?key rem)"
      by (simp only: groupRounds_remove_mset[OF full])
    also have "\<dots> = ?M" using inv by (simp add: I_def)
    finally show ?thesis using inv l d by (simp add: I_def)
  qed
  from groupRounds_loop_rule[where I = I, OF init step]
  obtain rem s where s: "groupRounds_loop (map mkMatch pairs) [] = Some s" and i: "I rem s"
    by blast
  have "mset (map ?key (concat s)) \<subseteq># mset (map ?key (concat s)) + mset (map ?key rem)"
    by (rule mset_subset_eq_add_left)
  with i have "mset (map ?key (concat s)) \<subseteq># ?M" by (simp add: I_def)
  with s i show ?thesis by (auto simp: groupRounds_def I_def)
qed


lemma set_generatePairs:
  "set (generatePairs N) = {p. 1 \<le> fst p \<and> fst p < snd p \<and> snd p \<le> N}"
proof (rule set_eqI)
  fix p
  show "p \<in> set (generatePairs N) \<longleftrightarrow> p \<in> {p. 1 \<le> fst p \<and> fst p < snd p \<and> snd p \<le> N}"
    by (cases p) (auto simp: generatePairs_def image_iff simp del: upt_Suc)
qed

lemma distinct_pair_rows:
  "distinct is \<Longrightarrow> distinct (concat (map (\<lambda>i. map (\<lambda>j. (i, j)) [g i ..< h i]) is))"
proof (induction "is")
  case Nil
  then show ?case by simp
next
  case (Cons i "is")
  then show ?case by (auto simp: distinct_map inj_on_def)
qed

lemma distinct_generatePairs: "distinct (generatePairs N)"
  unfolding generatePairs_def by (rule distinct_pair_rows) simp

lemma normalizePair_generatePairs: "map normalizePair (generatePairs N) = generatePairs N"
  by (rule map_idI) (auto simp: set_generatePairs normalizePair_def)

lemma noRepeat_generatePairs: "noRepeat (generatePairs N)"
  by (simp add: noRepeat_def normalizePair_generatePairs distinct_generatePairs)


lemma sum_rows: "2 * sum_list (map (\<lambda>i. N - i) [Suc 0 ..< Suc N]) = N * (N - 1)"
proof (induction N)
  case 0
  then show ?case by simp
next
  case (Suc N)
  have a: "map (\<lambda>i. Suc N - i) [Suc 0 ..< Suc N] = map (\<lambda>i. Suc (N - i)) [Suc 0 ..< Suc N]"
    by (rule map_cong) (auto simp: Suc_diff_le simp del: upt_Suc)
  have b: "[Suc 0 ..< Suc (Suc N)] = [Suc 0 ..< Suc N] @ [Suc N]"
    by (rule upt_Suc_append) simp
  have "sum_list (map (\<lambda>i. Suc N - i) [Suc 0 ..< Suc (Suc N)])
        = sum_list (map (\<lambda>i. Suc N - i) [Suc 0 ..< Suc N])"
    unfolding b by simp
  also have "\<dots> = sum_list (map (\<lambda>i. Suc (N - i)) [Suc 0 ..< Suc N])"
    unfolding a ..
  also have "\<dots> = sum_list (map (\<lambda>i. N - i) [Suc 0 ..< Suc N]) + length [Suc 0 ..< Suc N]"
    by (rule sum_list_Suc)
  finally have "sum_list (map (\<lambda>i. Suc N - i) [Suc 0 ..< Suc (Suc N)])
        = sum_list (map (\<lambda>i. N - i) [Suc 0 ..< Suc N]) + N"
    by simp
  with Suc show ?case by (cases N) (simp_all add: algebra_simps del: upt_Suc)
qed

lemma length_generatePairs: "length (generatePairs N) = N * (N - 1) div 2"
proof -
  have "length (generatePairs N) = sum_list (map (\<lambda>i. N - i) [Suc 0 ..< Suc N])"
    by (simp add: generatePairs_def length_concat comp_def del: upt_Suc)
  with sum_rows[of N] show ?thesis by simp
qed

lemma scheduleRounds_scan_length:
  "length round < 2 \<Longrightarrow>
   length (fst (scheduleRounds_scan xs usedTeams playedPairs matchesCount round)) \<le> 2"
  by (induction xs usedTeams playedPairs matchesCount round rule: scheduleRounds_scan.induct)
     (auto simp: less_2_cases_iff)

lemma scheduleRounds_scan_set:
  "set (map teams (fst (scheduleRounds_scan xs usedTeams playedPairs matchesCount round)))
     \<subseteq> set (map teams round) \<union> set xs"
  by (induction xs usedTeams playedPairs matchesCount round rule: scheduleRounds_scan.induct)
     (auto simp: mkMatch_def)

lemma scheduleRounds_scan_disjoint:
  "roundDisjoint (map teams round) \<Longrightarrow> (\<forall>m \<in> set round. teamsOf (teams m) \<subseteq> usedTeams)
   \<Longrightarrow> roundDisjoint
         (map teams (fst (scheduleRounds_scan xs usedTeams playedPairs matchesCount round)))"
proof (induction xs usedTeams playedPairs matchesCount round rule: scheduleRounds_scan.induct)
  case (1 usedTeams playedPairs matchesCount round)
  then show ?case by simp
next
  case (2 p rest usedTeams playedPairs matchesCount round)
  show ?case
  proof (cases "fst p \<notin> usedTeams \<and> snd p \<notin> usedTeams \<and> p \<notin> playedPairs")
    case True
    have d: "roundDisjoint (map teams (round @ [mkMatch p]))"
      using 2(3,4) True by (auto simp: roundDisjoint_snoc teamsOf_def mkMatch_def)
    have u: "\<forall>x \<in> set (round @ [mkMatch p]).
               teamsOf (teams x) \<subseteq> insert (snd p) (insert (fst p) usedTeams)"
      using 2(4) by (auto simp: teamsOf_def mkMatch_def)
    show ?thesis
    proof (cases "length (round @ [mkMatch p]) = 2")
      case l: True
      with True d show ?thesis by simp
    next
      case l: False
      from 2(1)[OF True l d u] True l show ?thesis by simp
    qed
  next
    case False
    show ?thesis
    proof (cases "length round = 2")
      case l: True
      with False 2(3) show ?thesis by auto
    next
      case l: False
      from 2(2)[OF False l 2(3) 2(4)] False l show ?thesis by auto
    qed
  qed
qed

lemma scheduleRounds_scan_two:
  assumes "scheduleRounds_scan xs {} playedPairs matchesCount [] = (round, playedPairs', matchesCount')"
    and "\<not> length round < 2"
  obtains m1 m2 where "round = [m1, m2]"
    and "teams m1 \<in> set xs" and "teams m2 \<in> set xs"
    and "teamsOf (teams m1) \<inter> teamsOf (teams m2) = {}"
proof -
  have r: "round = fst (scheduleRounds_scan xs {} playedPairs matchesCount [])"
    using assms(1) by simp
  have "length round \<le> 2" unfolding r by (rule scheduleRounds_scan_length) simp
  with assms(2) have "length round = 2" by simp
  then obtain m1 m2 where e: "round = [m1, m2]"
    by (auto simp: length_Suc_conv numeral_2_eq_2)
  have "set (map teams round) \<subseteq> set xs"
    unfolding r using scheduleRounds_scan_set[of xs "{}" playedPairs matchesCount "[]"] by simp
  with e have i: "teams m1 \<in> set xs" "teams m2 \<in> set xs" by auto
  have "roundDisjoint (map teams round)"
    unfolding r by (rule scheduleRounds_scan_disjoint) simp_all
  with e have "teamsOf (teams m1) \<inter> teamsOf (teams m2) = {}" by simp
  with e i that show thesis by blast
qed

lemma scheduleRounds_remove_step:
  assumes "scheduleRounds_scan xs {} playedPairs matchesCount [] = (round, playedPairs', matchesCount')"
    and "\<not> length round < 2"
  shows "length (scheduleRounds_remove round xs) + 2 = length xs"
    and "mset (map normalizePair (scheduleRounds_remove round xs))
           + mset (map (\<lambda>m. normalizePair (teams m)) round)
         = mset (map normalizePair xs)"
proof -
  from assms obtain m1 m2 where r: "round = [m1, m2]"
    and i: "teams m1 \<in> set xs" "teams m2 \<in> set xs"
    and d: "teamsOf (teams m1) \<inter> teamsOf (teams m2) = {}"
    by (rule scheduleRounds_scan_two)
  show "length (scheduleRounds_remove round xs) + 2 = length xs"
    unfolding r scheduleRounds_remove_def
    using splice_two(1)[of "teams m1" xs "teams m2" "teams m1" "teams m2" "\<lambda>x. x", OF i d]
    by (simp add: samePair_refl)
  show "mset (map normalizePair (scheduleRounds_remove round xs))
           + mset (map (\<lambda>m. normalizePair (teams m)) round)
         = mset (map normalizePair xs)"
    unfolding r scheduleRounds_remove_def
    using splice_two(2)[of "teams m1" xs "teams m2" "teams m1" "teams m2" "\<lambda>x. x", OF i d]
    by (simp add: samePair_refl)
qed

lemma scheduleRounds_loop_rule:
  assumes "I remainingPairs rounds"
    and "\<And>rem rs played cnt round played' cnt'.
           I rem rs \<Longrightarrow> rem \<noteq> [] \<Longrightarrow>
           scheduleRounds_scan (sort_key (pairSum cnt) rem) {} played cnt [] = (round, played', cnt')
           \<Longrightarrow> \<not> length round < 2
           \<Longrightarrow> I (scheduleRounds_remove round (sort_key (pairSum cnt) rem)) (rs @ [round])"
  shows "\<exists>rem r. scheduleRounds_loop remainingPairs playedPairs matchesCount rounds = Some r
                  \<and> I rem r"
  using assms(1)
proof (induction "length remainingPairs"
         arbitrary: remainingPairs playedPairs matchesCount rounds rule: less_induct)
  case less
  let ?sorted = "sort_key (pairSum matchesCount) remainingPairs"
  obtain round played' cnt' where
    sc: "scheduleRounds_scan ?sorted {} playedPairs matchesCount [] = (round, played', cnt')"
    by (cases "scheduleRounds_scan ?sorted {} playedPairs matchesCount []") auto
  show ?case
  proof (cases "remainingPairs = [] \<or> length round < 2")
    case True
    then have "scheduleRounds_loop remainingPairs playedPairs matchesCount rounds = Some rounds"
      using sc by (subst scheduleRounds_loop.simps) auto
    with less.prems show ?thesis by blast
  next
    case False
    then have ne: "remainingPairs \<noteq> []" and full: "\<not> length round < 2" by simp_all
    have "length (scheduleRounds_remove round ?sorted) + 2 = length ?sorted"
      using sc full by (rule scheduleRounds_remove_step(1))
    then have "length (scheduleRounds_remove round ?sorted) < length remainingPairs"
      by simp
    moreover have "I (scheduleRounds_remove round ?sorted) (rounds @ [round])"
      using less.prems ne sc full by (rule assms(2))
    ultimately have "\<exists>rem r. scheduleRounds_loop (scheduleRounds_remove round ?sorted)
                                played' cnt' (rounds @ [round]) = Some r \<and> I rem r"
      by (rule less.hyps)
    moreover have "scheduleRounds_loop remainingPairs playedPairs matchesCount rounds
                   = scheduleRounds_loop (scheduleRounds_remove round ?sorted)
                       played' cnt' (rounds @ [round])"
      using ne full sc by (subst scheduleRounds_loop.simps) simp
    ultimately show ?thesis by simp
  qed
qed

lemma scheduleRounds_props:
  "\<exists>rest. scheduleRounds N = Some (round1 # rest)
       \<and> (\<forall>r \<in> set (round1 # rest). length r = 2 \<and> roundDisjoint (map teams r))
       \<and> mset (map (\<lambda>m. normalizePair (teams m)) (concat (round1 # rest)))
           \<subseteq># {#(1, 2), (3, 4)#} + mset (map normalizePair (filter notRound1 (generatePairs N)))"
proof -
  let ?key = "\<lambda>m. normalizePair (teams m)"
  let ?M = "{#(1, 2), (3, 4)#} + mset (map normalizePair (filter notRound1 (generatePairs N)))"
  define I :: "pair list \<Rightarrow> match list list \<Rightarrow> bool"
    where "I = (\<lambda>rem rs. (\<forall>r \<in> set rs. length r = 2 \<and> roundDisjoint (map teams r))
              \<and> mset (map ?key (concat rs)) + mset (map normalizePair rem) = ?M
              \<and> (\<exists>rest. rs = round1 # rest))"
  have init: "I (filter notRound1 (generatePairs N)) [round1]"
    by (simp add: I_def round1_def teamsOf_def normalizePair_def)
  have step: "I (scheduleRounds_remove round (sort_key (pairSum cnt) rem)) (rs @ [round])"
    if inv: "I rem rs" and ne: "rem \<noteq> []"
      and sc: "scheduleRounds_scan (sort_key (pairSum cnt) rem) {} played cnt [] = (round, played', cnt')"
      and full: "\<not> length round < 2" for rem rs played cnt round played' cnt'
  proof -
    let ?sorted = "sort_key (pairSum cnt) rem"
    have r: "round = fst (scheduleRounds_scan ?sorted {} played cnt [])" using sc by simp
    have "length round \<le> 2" unfolding r by (rule scheduleRounds_scan_length) simp
    with full have l: "length round = 2" by simp
    have d: "roundDisjoint (map teams round)"
      unfolding r by (rule scheduleRounds_scan_disjoint) simp_all
    have "mset (map ?key (concat (rs @ [round])))
            + mset (map normalizePair (scheduleRounds_remove round ?sorted))
          = mset (map ?key (concat rs))
            + (mset (map normalizePair (scheduleRounds_remove round ?sorted)) + mset (map ?key round))"
      by (simp add: ac_simps)
    also have "\<dots> = mset (map ?key (concat rs)) + mset (map normalizePair ?sorted)"
      by (simp only: scheduleRounds_remove_step(2)[OF sc full])
    also have "\<dots> = mset (map ?key (concat rs)) + mset (map normalizePair rem)"
      by simp
    also have "\<dots> = ?M" using inv by (simp add: I_def)
    finally show ?thesis using inv l d by (auto simp: I_def)
  qed
  have "\<exists>rem r. scheduleRounds_loop (filter notRound1 (generatePairs N))
                    initialPlayedPairs initialMatchesCount [round1] = Some r \<and> I rem r"
  proof (rule scheduleRounds_loop_rule[where I = I])
    show "I (filter notRound1 (generatePairs N)) [round1]" by (rule init)
  next
    fix rem rs played cnt round played' cnt'
    assume "I rem rs" "rem \<noteq> []"
      "scheduleRounds_scan (sort_key (pairSum cnt) rem) {} played cnt [] = (round, played', cnt')"
      "\<not> length round < 2"
    then show "I (scheduleRounds_remove round (sort_key (pairSum cnt) rem)) (rs @ [round])"
      by (rule step)
  qed
  then obtain rem s where s: "scheduleRounds_loop (filter notRound1 (generatePairs N))
                           initialPlayedPairs initialMatchesCount [round1] = Some s"
    and i: "I rem s"
    by blast
  have "mset (map ?key (concat s)) \<subseteq># mset (map ?key (concat s)) + mset (map normalizePair rem)"
    by (rule mset_subset_eq_add_left)
  with i have "mset (map ?key (concat s)) \<subseteq># ?M" by (simp add: I_def)
  with s i show ?thesis by (auto simp: scheduleRounds_def I_def)
qed

lemma mset_filter_split:
  "mset xs = mset (filter (\<lambda>x. \<not> P x) xs) + mset (filter P xs)"
  by (induction xs) simp_all

lemma round1_pairs_generated:
  assumes "4 \<le> N"
  shows "{#(1, 2), (3, 4)#} + mset (filter notRound1 (generatePairs N)) = mset (generatePairs N)"
proof -
  let ?opening = "filter (\<lambda>p. \<not> notRound1 p) (generatePairs N)"
  have "distinct ?opening" by (simp add: distinct_generatePairs)
  moreover have "set ?opening = {(1, 2), (3, 4)}"
    using assms by (auto simp: set_generatePairs notRound1_def)
  ultimately have "mset ?opening = mset [(1, 2), (3, 4)]"
    by (subst set_eq_iff_mset_eq_distinct[symmetric]) simp_all
  then show ?thesis
    by (subst (2) mset_filter_split[of _ notRound1]) simp
qed

lemma randomIndex_less: "0 < m \<Longrightarrow> randomIndex u m < m"
proof -
  assume m: "0 < m"
  have "uint u < 2 ^ 32" using uint_bounded[of u] by simp
  then have "uint u * int m < 2 ^ 32 * int m" using m by simp
  then have "(uint u * int m) div 2 ^ 32 < int m"
    by (simp add: div_less_iff_less_mult mult.commute)
  moreover have "0 \<le> (uint u * int m) div 2 ^ 32"
    by (simp add: pos_imp_zdiv_nonneg_iff)
  ultimately show ?thesis by (simp add: randomIndex_def)
qed

lemma seededShuffle_loop_mset:
  "m \<le> length arr \<Longrightarrow> mset (seededShuffle_loop m arr a) = mset arr"
proof (induction m arr a rule: seededShuffle_loop.induct)
  case (1 arr a)
  then show ?case by simp
next
  case (2 m arr a)
  obtain a' u where mb: "mulberry32 a = (a', u)" by (cases "mulberry32 a") auto
  let ?i = "randomIndex u (Suc m)"
  have i: "?i < length arr" using randomIndex_less[of "Suc m" u] 2(2) by simp
  have m: "m < length arr" using 2(2) by simp
  have sw: "mset (arr[m := arr ! ?i, ?i := arr ! m]) = mset arr"
    using i m by (rule mset_swap)
  have "mset (seededShuffle_loop m (arr[m := arr ! ?i, ?i := arr ! m]) a') =
        mset (arr[m := arr ! ?i, ?i := arr ! m])"
    using 2(1)[OF mb[symmetric]] m by simp
  with sw mb show ?case by simp
qed

lemma seededShuffle_mset: "mset (seededShuffle array seed) = mset array"
  by (simp add: seededShuffle_def seededShuffle_loop_mset)

lemma scheduleRounds_pairs_scan_mset:
  "mset (fst (scheduleRounds_pairs_scan xs kept usedTeams round))
     + mset (snd (scheduleRounds_pairs_scan xs kept usedTeams round))
   = mset round + mset kept + mset xs"
  by (induction xs kept usedTeams round rule: scheduleRounds_pairs_scan.induct) auto

lemma scheduleRounds_pairs_scan_length:
  "length round < 2 \<Longrightarrow>
   length (fst (scheduleRounds_pairs_scan xs kept usedTeams round)) \<le> 2"
  by (induction xs kept usedTeams round rule: scheduleRounds_pairs_scan.induct)
     (auto simp: less_2_cases_iff)

lemma scheduleRounds_pairs_scan_disjoint:
  "roundDisjoint round \<Longrightarrow> (\<forall>p \<in> set round. teamsOf p \<subseteq> usedTeams)
   \<Longrightarrow> roundDisjoint (fst (scheduleRounds_pairs_scan xs kept usedTeams round))"
proof (induction xs kept usedTeams round rule: scheduleRounds_pairs_scan.induct)
  case (1 kept usedTeams round)
  then show ?case by simp
next
  case (2 p rest kept usedTeams round)
  show ?case
  proof (cases "fst p \<notin> usedTeams \<and> snd p \<notin> usedTeams")
    case True
    have d: "roundDisjoint (round @ [p])"
      using 2(3,4) True by (auto simp: roundDisjoint_snoc teamsOf_def)
    have u: "\<forall>x \<in> set (round @ [p]). teamsOf x \<subseteq> insert (snd p) (insert (fst p) usedTeams)"
      using 2(4) by (auto simp: teamsOf_def)
    show ?thesis
    proof (cases "length (round @ [p]) = 2")
      case l: True
      with True d show ?thesis by simp
    next
      case l: False
      from 2(1)[OF True l d u] True l show ?thesis by simp
    qed
  next
    case False
    from 2(2)[OF False 2(3) 2(4)] False show ?thesis by auto
  qed
qed

lemma scheduleRounds_pairs_loop_rule:
  assumes "I remaining rounds"
    and "\<And>rem rs round rem'.
           I rem rs \<Longrightarrow> rem \<noteq> [] \<Longrightarrow>
           scheduleRounds_pairs_scan rem [] {} [] = (round, rem') \<Longrightarrow> length round = 2
           \<Longrightarrow> I rem' (rs @ [round])"
  shows "\<exists>rem r. scheduleRounds_pairs_loop remaining rounds = Some r \<and> I rem r"
  using assms(1)
proof (induction "length remaining" arbitrary: remaining rounds rule: less_induct)
  case less
  obtain round rem' where sc: "scheduleRounds_pairs_scan remaining [] {} [] = (round, rem')"
    by (cases "scheduleRounds_pairs_scan remaining [] {} []") auto
  show ?case
  proof (cases "remaining = [] \<or> length round \<noteq> 2")
    case True
    then have "scheduleRounds_pairs_loop remaining rounds = Some rounds"
      using sc by (subst scheduleRounds_pairs_loop.simps) auto
    with less.prems show ?thesis by blast
  next
    case False
    then have ne: "remaining \<noteq> []" and full: "length round = 2" by simp_all
    have "mset round + mset rem' = mset remaining"
      using scheduleRounds_pairs_scan_mset[of remaining "[]" "{}" "[]"] sc by simp
    then have "length round + length rem' = length remaining"
      by (metis size_mset size_union)
    with full have "length rem' < length remaining" by simp
    moreover have "I rem' (rounds @ [round])"
      using less.prems ne sc full by (rule assms(2))
    ultimately have "\<exists>rem r. scheduleRounds_pairs_loop rem' (rounds @ [round]) = Some r \<and> I rem r"
      by (rule less.hyps)
    moreover have "scheduleRounds_pairs_loop remaining rounds
                   = scheduleRounds_pairs_loop rem' (rounds @ [round])"
      using ne full sc by (subst scheduleRounds_pairs_loop.simps) simp
    ultimately show ?thesis by simp
  qed
qed

lemma scheduleRounds_pairs_props:
  "\<exists>s. scheduleRounds_pairs pairs = Some s
       \<and> (\<forall>r \<in> set s. length r = 2 \<and> roundDisjoint r)
       \<and> mset (concat s) \<subseteq># mset pairs"
proof -
  define I :: "pair list \<Rightarrow> pair list list \<Rightarrow> bool"
    where "I = (\<lambda>rem rs. (\<forall>r \<in> set rs. length r = 2 \<and> roundDisjoint r)
              \<and> mset (concat rs) + mset rem = mset pairs)"
  have "\<exists>rem r. scheduleRounds_pairs_loop pairs [] = Some r \<and> I rem r"
  proof (rule scheduleRounds_pairs_loop_rule[where I = I])
    show "I pairs []" by (simp add: I_def)
  next
    fix rem rs round rem'
    assume inv: "I rem rs" and "rem \<noteq> []"
      and sc: "scheduleRounds_pairs_scan rem [] {} [] = (round, rem')"
      and l: "length round = 2"
    have r: "round = fst (scheduleRounds_pairs_scan rem [] {} [])" using sc by simp
    have d: "roundDisjoint round"
      unfolding r by (rule scheduleRounds_pairs_scan_disjoint) simp_all
    have "mset round + mset rem' = mset rem"
      using scheduleRounds_pairs_scan_mset[of rem "[]" "{}" "[]"] sc by simp
    then have "mset (concat (rs @ [round])) + mset rem' = mset (concat rs) + mset rem"
      by (simp add: ac_simps)
    with inv l d show "I rem' (rs @ [round])" by (simp add: I_def)
  qed
  then obtain rem s where s: "scheduleRounds_pairs_loop pairs [] = Some s" and i: "I rem s"
    by blast
  have "mset (concat s) \<subseteq># mset (concat s) + mset rem"
    by (rule mset_subset_eq_add_left)
  with i have "mset (concat s) \<subseteq># mset pairs" by (simp add: I_def)
  with s i show ?thesis by (auto simp: scheduleRounds_pairs_def I_def)
qed

lemma precomputeSchedules_body_props:
  "\<exists>rest. precomputeSchedules_body N = Some (firstRound # rest)
       \<and> (\<forall>r \<in> set (firstRound # rest). length r = 2 \<and> roundDisjoint r)
       \<and> mset (concat rest)
           \<subseteq># mset (filter (\<lambda>p. normalizePair p \<notin> set (map normalizePair firstRound))
                      (generatePairs N))"
proof -
  let ?pairs = "filter (\<lambda>p. normalizePair p \<notin> set (map normalizePair firstRound)) (generatePairs N)"
  obtain s where s: "scheduleRounds_pairs (seededShuffle ?pairs N) = Some s"
    and r: "\<forall>r \<in> set s. length r = 2 \<and> roundDisjoint r"
    and m: "mset (concat s) \<subseteq># mset (seededShuffle ?pairs N)"
    using scheduleRounds_pairs_props[of "seededShuffle ?pairs N"] by blast
  have "length firstRound = 2 \<and> roundDisjoint firstRound"
    by (simp add: firstRound_def teamsOf_def)
  with s r m show ?thesis
    by (simp add: precomputeSchedules_body_def seededShuffle_mset)
qed

lemma firstRound_pairs_generated:
  assumes "4 \<le> N"
  shows "mset firstRound
           + mset (filter (\<lambda>p. normalizePair p \<notin> set (map normalizePair firstRound))
                     (generatePairs N))
         = mset (generatePairs N)"
proof -
  let ?Q = "\<lambda>p. normalizePair p \<notin> set (map normalizePair firstRound)"
  let ?opening = "filter (\<lambda>p. \<not> ?Q p) (generatePairs N)"
  have "distinct ?opening" by (simp add: distinct_generatePairs)
  moreover have "set ?opening = {(1, 2), (3, 4)}"
    using assms by (auto simp: set_generatePairs normalizePair_def firstRound_def)
  ultimately have "mset ?opening = mset [(1, 2), (3, 4)]"
    by (subst set_eq_iff_mset_eq_distinct[symmetric]) simp_all
  then have "mset ?opening = mset firstRound" by (simp add: firstRound_def)
  then show ?thesis
    by (subst (2) mset_filter_split[of _ ?Q]) simp
qed

lemma precomputeSchedules_for_table:
  "\<exists>schedules. precomputeSchedules_for ns = Some schedules \<and> map fst schedules = ns
       \<and> (\<forall>n \<in> set ns. map_of schedules n = precomputeSchedules_body n)"
proof (induction ns)
  case Nil
  then show ?case by simp
next
  case (Cons n ns)
  then obtain tbl where t: "precomputeSchedules_for ns = Some tbl" "map fst tbl = ns"
    "\<forall>k \<in> set ns. map_of tbl k = precomputeSchedules_body k" by blast
  obtain s where s: "precomputeSchedules_body n = Some s"
    using precomputeSchedules_body_props[of n] by blast
  have a: "precomputeSchedules_for (n # ns) = Some ((n, s) # tbl)" using t(1) s by simp
  have b: "map fst ((n, s) # tbl) = n # ns" using t(2) by simp
  have c: "\<forall>k \<in> set (n # ns). map_of ((n, s) # tbl) k = precomputeSchedules_body k"
    using t(3) s by auto
  show ?case
  proof (intro exI conjI)
    show "precomputeSchedules_for (n # ns) = Some ((n, s) # tbl)" by (rule a)
    show "map fst ((n, s) # tbl) = n # ns" by (rule b)
    show "\<forall>k \<in> set (n # ns). map_of ((n, s) # tbl) k = precomputeSchedules_body k" by (rule c)
  qed
qed

lemma seededSchedule_inside:
  assumes "4 \<le> N" and "N \<le> 15"
  shows "seededSchedule N = precomputeSchedules_body N"
proof -
  obtain tbl where t: "precomputeSchedules_for [4 ..< 16] = Some tbl"
    "\<forall>n \<in> set [4 ..< 16]. map_of tbl n = precomputeSchedules_body n"
    using precomputeSchedules_for_table[of "[4 ..< 16]"] by blast
  have "N \<in> {4 ..< 16}" using assms by simp
  then have "N \<in> set [4 ..< 16]" unfolding set_upt .
  with t(2) have "map_of tbl N = precomputeSchedules_body N" by blast
  moreover obtain s where "precomputeSchedules_body N = Some s"
    using precomputeSchedules_body_props[of N] by blast
  ultimately show ?thesis using t(1)
    by (simp add: seededSchedule_def precomputeSchedules_def)
qed

lemma seededSchedule_outside:
  assumes "N < 4 \<or> 15 < N"
  shows "seededSchedule N = Some []"
proof -
  obtain tbl where t: "precomputeSchedules_for [4 ..< 16] = Some tbl" "map fst tbl = [4 ..< 16]"
    using precomputeSchedules_for_table[of "[4 ..< 16]"] by blast
  have "N \<notin> {4 ..< 16}" using assms by auto
  then have "N \<notin> set [4 ..< 16]" unfolding set_upt .
  with t(2) have "N \<notin> fst ` set tbl" by (metis set_map)
  then have "map_of tbl N = None" by (simp add: map_of_eq_None_iff)
  with t(1) show ?thesis by (simp add: seededSchedule_def precomputeSchedules_def)
qed

lemma length_toggleComplete: "length (toggleComplete r c rounds) = length rounds"
  by (simp add: toggleComplete_def)

lemma length_toggleComplete_nth:
  "i < length rounds \<Longrightarrow> length (toggleComplete r c rounds ! i) = length (rounds ! i)"
  by (simp add: toggleComplete_def nth_enumerate_eq)

lemma toggleComplete_nth:
  "i < length rounds \<Longrightarrow> j < length (rounds ! i) \<Longrightarrow>
   toggleComplete r c rounds ! i ! j =
     (if i = r \<and> j = c then (rounds ! i ! j)\<lparr>complete := \<not> complete (rounds ! i ! j)\<rparr>
      else rounds ! i ! j)"
  by (simp add: toggleComplete_def nth_enumerate_eq)

lemma toggleComplete_twice: "toggleComplete r c (toggleComplete r c rounds) = rounds"
proof (rule nth_equalityI)
  show "length (toggleComplete r c (toggleComplete r c rounds)) = length rounds"
    by (simp add: length_toggleComplete)
next
  fix i assume "i < length (toggleComplete r c (toggleComplete r c rounds))"
  then have i: "i < length rounds" by (simp add: length_toggleComplete)
  show "toggleComplete r c (toggleComplete r c rounds) ! i = rounds ! i"
  proof (rule nth_equalityI)
    show "length (toggleComplete r c (toggleComplete r c rounds) ! i) = length (rounds ! i)"
      using i by (simp add: length_toggleComplete length_toggleComplete_nth)
  next
    fix j assume "j < length (toggleComplete r c (toggleComplete r c rounds) ! i)"
    then have j: "j < length (rounds ! i)"
      using i by (simp add: length_toggleComplete length_toggleComplete_nth)
    have i': "i < length (toggleComplete r c rounds)"
      using i by (simp add: length_toggleComplete)
    have j': "j < length (toggleComplete r c rounds ! i)"
      using i j by (simp add: length_toggleComplete_nth)
    show "toggleComplete r c (toggleComplete r c rounds) ! i ! j = rounds ! i ! j"
      unfolding toggleComplete_nth[OF i' j'] toggleComplete_nth[OF i j] by simp
  qed
qed

lemma toggleComplete_teams: "map (map teams) (toggleComplete r c rounds) = map (map teams) rounds"
proof (rule nth_equalityI)
  show "length (map (map teams) (toggleComplete r c rounds)) = length (map (map teams) rounds)"
    by (simp add: length_toggleComplete)
next
  fix i assume "i < length (map (map teams) (toggleComplete r c rounds))"
  then have i: "i < length rounds" by (simp add: length_toggleComplete)
  have "map teams (toggleComplete r c rounds ! i) = map teams (rounds ! i)"
  proof (rule nth_equalityI)
    show "length (map teams (toggleComplete r c rounds ! i)) = length (map teams (rounds ! i))"
      using i by (simp add: length_toggleComplete_nth)
  next
    fix j assume "j < length (map teams (toggleComplete r c rounds ! i))"
    then have j: "j < length (rounds ! i)" using i by (simp add: length_toggleComplete_nth)
    show "map teams (toggleComplete r c rounds ! i) ! j = map teams (rounds ! i) ! j"
      using i j by (simp add: toggleComplete_nth length_toggleComplete_nth)
  qed
  then show "map (map teams) (toggleComplete r c rounds) ! i = map (map teams) rounds ! i"
    using i by (simp add: length_toggleComplete)
qed

lemma toggleComplete_noop:
  assumes "\<not> (r < length rounds \<and> c < length (rounds ! r))"
  shows "toggleComplete r c rounds = rounds"
proof (rule nth_equalityI)
  show "length (toggleComplete r c rounds) = length rounds" by (rule length_toggleComplete)
next
  fix i assume "i < length (toggleComplete r c rounds)"
  then have i: "i < length rounds" by (simp add: length_toggleComplete)
  show "toggleComplete r c rounds ! i = rounds ! i"
  proof (rule nth_equalityI)
    show "length (toggleComplete r c rounds ! i) = length (rounds ! i)"
      using i by (rule length_toggleComplete_nth)
  next
    fix j assume "j < length (toggleComplete r c rounds ! i)"
    then have j: "j < length (rounds ! i)" using i by (simp add: length_toggleComplete_nth)
    have "\<not> (i = r \<and> j = c)" using assms i j by auto
    then show "toggleComplete r c rounds ! i ! j = rounds ! i ! j"
      using i j by (simp add: toggleComplete_nth)
  qed
qed

lemma set_newSet_aux:
  "set (foldl (\<lambda>s x. if x \<in> set s then s else s @ [x]) acc xs) = set acc \<union> set xs"
  by (induction xs arbitrary: acc) auto

lemma set_newSet: "set (newSet xs) = set xs"
  by (simp add: newSet_def set_newSet_aux)

lemma toggleMatchComplete_twice_set:
  "set (case toggleMatchComplete r c (toggleMatchComplete r c prev) r of None \<Rightarrow> [] | Some arr \<Rightarrow> arr)
     = set (case prev r of None \<Rightarrow> [] | Some arr \<Rightarrow> arr)"
  by (auto simp: toggleMatchComplete_def Let_def set_newSet)

lemma toggleMatchComplete_other:
  "r' \<noteq> r \<Longrightarrow> toggleMatchComplete r c prev r' = prev r'"
  by (simp add: toggleMatchComplete_def Let_def)

lemma isCompleted_toggle_twice:
  "isCompleted (toggleMatchComplete r c (toggleMatchComplete r c prev)) r' c'
     = isCompleted prev r' c'"
proof (cases "r' = r")
  case True
  have "toggleMatchComplete r c (toggleMatchComplete r c prev) r \<noteq> None"
    by (simp add: toggleMatchComplete_def Let_def)
  then obtain arr where a: "toggleMatchComplete r c (toggleMatchComplete r c prev) r = Some arr"
    by blast
  with toggleMatchComplete_twice_set[of r c prev]
  have "set arr = set (case prev r of None \<Rightarrow> [] | Some arr \<Rightarrow> arr)" by simp
  with a True show ?thesis by (simp add: isCompleted_def split: option.splits)
next
  case False
  then show ?thesis by (simp add: isCompleted_def toggleMatchComplete_other)
qed

lemma bounded_by_generated:
  assumes "mset (map normalizePair ps) \<subseteq># mset (generatePairs N)"
  shows "length ps \<le> N * (N - 1) div 2" and "noRepeat ps"
proof -
  have "size (mset (map normalizePair ps)) \<le> size (mset (generatePairs N))"
    using assms by (rule size_mset_mono)
  then show "length ps \<le> N * (N - 1) div 2"
    by (simp add: length_generatePairs)
  show "noRepeat ps"
    unfolding noRepeat_def using assms distinct_generatePairs by (rule submultiset_distinct)
qed

lemma filter_generatePairs_normal:
  "map normalizePair (filter P (generatePairs N)) = filter P (generatePairs N)"
  by (rule map_idI) (auto simp: set_generatePairs normalizePair_def)

lemma regenerateSchedule_bounded:
  "\<exists>s. regenerateSchedule N = Some s
       \<and> (\<forall>r \<in> set s. length r = 2 \<and> roundDisjoint (map teams r))
       \<and> length (concat s) \<le> N * (N - 1) div 2 \<and> noRepeat (map teams (concat s))"
proof -
  obtain s where s: "groupRounds (generatePairs N) = Some s"
    and r: "\<forall>r \<in> set s. length r = 2 \<and> roundDisjoint (map teams r)"
    and m: "mset (map (\<lambda>m. normalizePair (teams m)) (concat s))
              \<subseteq># mset (map normalizePair (generatePairs N))"
    using groupRounds_props[of "generatePairs N"] by blast
  have "mset (map normalizePair (map teams (concat s))) \<subseteq># mset (generatePairs N)"
    using m by (simp add: normalizePair_generatePairs comp_def)
  from bounded_by_generated[OF this] s r show ?thesis
    by (simp add: regenerateSchedule_def)
qed

lemma scheduleRounds_bounded:
  assumes "4 \<le> N"
  shows "\<exists>rest. scheduleRounds N = Some (round1 # rest)
       \<and> (\<forall>r \<in> set (round1 # rest). length r = 2 \<and> roundDisjoint (map teams r))
       \<and> length (concat (round1 # rest)) \<le> N * (N - 1) div 2
       \<and> noRepeat (map teams (concat (round1 # rest)))"
proof -
  obtain rest where s: "scheduleRounds N = Some (round1 # rest)"
    and r: "\<forall>r \<in> set (round1 # rest). length r = 2 \<and> roundDisjoint (map teams r)"
    and m: "mset (map (\<lambda>m. normalizePair (teams m)) (concat (round1 # rest)))
           \<subseteq># {#(1, 2), (3, 4)#} + mset (map normalizePair (filter notRound1 (generatePairs N)))"
    using scheduleRounds_props[of N] by blast
  have "mset (map normalizePair (map teams (concat (round1 # rest)))) \<subseteq># mset (generatePairs N)"
    using m round1_pairs_generated[OF assms]
    by (simp only: filter_generatePairs_normal map_map comp_def)
  from bounded_by_generated[OF this] have "length (concat (round1 # rest)) \<le> N * (N - 1) div 2"
    and "noRepeat (map teams (concat (round1 # rest)))" by simp_all
  with s r show ?thesis by blast
qed

lemma seededSchedule_bounded:
  assumes "4 \<le> N"
  shows "\<exists>rest. precomputeSchedules_body N = Some (firstRound # rest)
       \<and> (\<forall>r \<in> set (firstRound # rest). length r = 2 \<and> roundDisjoint r)
       \<and> length (concat (firstRound # rest)) \<le> N * (N - 1) div 2
       \<and> noRepeat (concat (firstRound # rest))"
proof -
  let ?Q = "\<lambda>p. normalizePair p \<notin> set (map normalizePair firstRound)"
  obtain rest where s: "precomputeSchedules_body N = Some (firstRound # rest)"
    and r: "\<forall>r \<in> set (firstRound # rest). length r = 2 \<and> roundDisjoint r"
    and m: "mset (concat rest) \<subseteq># mset (filter ?Q (generatePairs N))"
    using precomputeSchedules_body_props[of N] by blast
  have "mset (concat (firstRound # rest)) \<subseteq># mset firstRound + mset (filter ?Q (generatePairs N))"
    using m by simp
  then have "mset (concat (firstRound # rest)) \<subseteq># mset (generatePairs N)"
    by (simp only: firstRound_pairs_generated[OF assms])
  then have "image_mset normalizePair (mset (concat (firstRound # rest)))
               \<subseteq># image_mset normalizePair (mset (generatePairs N))"
    by (rule image_mset_subseteq_mono)
  then have "mset (map normalizePair (concat (firstRound # rest))) \<subseteq># mset (generatePairs N)"
    using normalizePair_generatePairs[of N] by (metis mset_map)
  from bounded_by_generated[OF this] s r show ?thesis by blast
qed

section \<open>Evaluated schedules\<close>

lemma regenerateSchedule_4:
  "regenerateSchedule 4 =
     Some [[mkMatch (1, 2), mkMatch (3, 4)], [mkMatch (1, 3), mkMatch (2, 4)],
           [mkMatch (1, 4), mkMatch (2, 3)]]"
  by code_simp

lemma scheduleRounds_4:
  "scheduleRounds 4 =
     Some [[mkMatch (1, 2), mkMatch (3, 4)], [mkMatch (1, 3), mkMatch (2, 4)],
           [mkMatch (1, 4), mkMatch (2, 3)]]"
  by code_simp

lemma precomputeSchedules_body_4:
  "precomputeSchedules_body 4 = Some [[(1, 2), (3, 4)], [(1, 4), (2, 3)], [(1, 3), (2, 4)]]"
  by code_simp

lemma seededSchedule_4:
  "seededSchedule 4 = Some [[(1, 2), (3, 4)], [(1, 4), (2, 3)], [(1, 3), (2, 4)]]"
  using seededSchedule_inside[of 4] precomputeSchedules_body_4 by simp

section \<open>The claims\<close>

text \<open>
  C1. For every team count \<open>N\<close> from 4 to 15 and each of the three variants, the schedule
  is produced and no team occurs in more than one match of any of its rounds.
\<close>

theorem C1_rounds_disjoint:
  assumes "4 \<le> N" and "N \<le> 15"
  shows "(\<exists>s. regenerateSchedule N = Some s \<and> (\<forall>r \<in> set s. roundDisjoint (map teams r)))
       \<and> (\<exists>s. scheduleRounds N = Some s \<and> (\<forall>r \<in> set s. roundDisjoint (map teams r)))
       \<and> (\<exists>s. seededSchedule N = Some s \<and> (\<forall>r \<in> set s. roundDisjoint r))"
proof (intro conjI)
  show "\<exists>s. regenerateSchedule N = Some s \<and> (\<forall>r \<in> set s. roundDisjoint (map teams r))"
    using regenerateSchedule_bounded[of N] by blast
  show "\<exists>s. scheduleRounds N = Some s \<and> (\<forall>r \<in> set s. roundDisjoint (map teams r))"
    using scheduleRounds_bounded[OF assms(1)] by blast
  show "\<exists>s. seededSchedule N = Some s \<and> (\<forall>r \<in> set s. roundDisjoint r)"
    using seededSchedule_bounded[OF assms(1)] seededSchedule_inside[OF assms] by force
qed

theorem C1_rounds_disjoint_witness:
  "(4 :: nat) \<le> 4 \<and> (4 :: nat) \<le> 15
   \<and> regenerateSchedule 4 \<noteq> None \<and> scheduleRounds 4 \<noteq> None \<and> seededSchedule 4 \<noteq> None
   \<and> roundDisjoint [(1, 3), (2, 4)] \<and> roundDisjoint [(1, 4), (2, 3)]"
proof -
  have h: "(4 :: nat) \<le> 4" "(4 :: nat) \<le> 15" by simp_all
  from C1_rounds_disjoint[OF h] obtain s1 s2 s3 where
    s: "regenerateSchedule 4 = Some s1" "\<forall>r \<in> set s1. roundDisjoint (map teams r)"
       "scheduleRounds 4 = Some s2" "seededSchedule 4 = Some s3"
       "\<forall>r \<in> set s3. roundDisjoint r"
    by blast
  from s(1,2) regenerateSchedule_4 have "roundDisjoint [(1, 3), (2, 4)]"
    by (auto simp: mkMatch_def)
  moreover from s(4,5) seededSchedule_4 have "roundDisjoint [(1, 4), (2, 3)]"
    by auto
  ultimately show ?thesis using s(1,3,4) by simp
qed

text \<open>
  C2. For every team count \<open>N\<close> from 4 to 15 and each variant, the schedule holds at most
  \<open>N (N - 1) / 2\<close> matches and no unordered pair of teams occurs in two of its matches,
  the matches of the fixed opening round included.
\<close>

theorem C2_no_pair_twice:
  assumes "4 \<le> N" and "N \<le> 15"
  shows "(\<exists>s. regenerateSchedule N = Some s \<and> length (concat s) \<le> N * (N - 1) div 2
              \<and> noRepeat (map teams (concat s)))
       \<and> (\<exists>s. scheduleRounds N = Some s \<and> length (concat s) \<le> N * (N - 1) div 2
              \<and> noRepeat (map teams (concat s)))
       \<and> (\<exists>s. seededSchedule N = Some s \<and> length (concat s) \<le> N * (N - 1) div 2
              \<and> noRepeat (concat s))"
proof (intro conjI)
  show "\<exists>s. regenerateSchedule N = Some s \<and> length (concat s) \<le> N * (N - 1) div 2
              \<and> noRepeat (map teams (concat s))"
    using regenerateSchedule_bounded[of N] by blast
  show "\<exists>s. scheduleRounds N = Some s \<and> length (concat s) \<le> N * (N - 1) div 2
              \<and> noRepeat (map teams (concat s))"
    using scheduleRounds_bounded[OF assms(1)] by blast
  show "\<exists>s. seededSchedule N = Some s \<and> length (concat s) \<le> N * (N - 1) div 2
              \<and> noRepeat (concat s)"
    using seededSchedule_bounded[OF assms(1)] seededSchedule_inside[OF assms] by force
qed

theorem C2_no_pair_twice_witness:
  "(4 :: nat) \<le> 4 \<and> (4 :: nat) \<le> 15
   \<and> (\<exists>s. regenerateSchedule 4 = Some s \<and> length (concat s) \<le> 6
              \<and> noRepeat (map teams (concat s)))
   \<and> (\<exists>s. scheduleRounds 4 = Some s \<and> length (concat s) \<le> 6
              \<and> noRepeat (map teams (concat s)))
   \<and> (\<exists>s. seededSchedule 4 = Some s \<and> length (concat s) \<le> 6 \<and> noRepeat (concat s))"
proof -
  have h: "(4 :: nat) \<le> 4" "(4 :: nat) \<le> 15" by simp_all
  show ?thesis using C2_no_pair_twice[OF h] by simp
qed

text \<open>
  C3. For every team count \<open>N\<close> from 4 to 15 and each variant, every round of the schedule
  has exactly two matches; and in each loop, a scan that does not fill two courts ends the
  generation with the rounds collected before it, so the short round is never appended.
\<close>

theorem C3_full_rounds:
  assumes "4 \<le> N" and "N \<le> 15"
  shows "(\<exists>s. regenerateSchedule N = Some s \<and> (\<forall>r \<in> set s. length r = 2))
       \<and> (\<exists>s. scheduleRounds N = Some s \<and> (\<forall>r \<in> set s. length r = 2))
       \<and> (\<exists>s. seededSchedule N = Some s \<and> (\<forall>r \<in> set s. length r = 2))
       \<and> (length (groupRounds_scan remaining {} []) < 2
            \<longrightarrow> groupRounds_loop remaining rounds = Some rounds)
       \<and> (length (fst (scheduleRounds_scan (sort_key (pairSum matchesCount) remainingPairs)
                          {} playedPairs matchesCount [])) < 2
            \<longrightarrow> scheduleRounds_loop remainingPairs playedPairs matchesCount builtRounds = Some builtRounds)
       \<and> (length (fst (scheduleRounds_pairs_scan pairs [] {} [])) \<noteq> 2
            \<longrightarrow> scheduleRounds_pairs_loop pairs pairRounds = Some pairRounds)"
proof (intro conjI impI)
  show "\<exists>s. regenerateSchedule N = Some s \<and> (\<forall>r \<in> set s. length r = 2)"
    using regenerateSchedule_bounded[of N] by blast
  show "\<exists>s. scheduleRounds N = Some s \<and> (\<forall>r \<in> set s. length r = 2)"
    using scheduleRounds_bounded[OF assms(1)] by blast
  show "\<exists>s. seededSchedule N = Some s \<and> (\<forall>r \<in> set s. length r = 2)"
    using seededSchedule_bounded[OF assms(1)] seededSchedule_inside[OF assms] by force
next
  assume "length (groupRounds_scan remaining {} []) < 2"
  then show "groupRounds_loop remaining rounds = Some rounds"
    by (subst groupRounds_loop.simps) simp
next
  assume "length (fst (scheduleRounds_scan (sort_key (pairSum matchesCount) remainingPairs)
                          {} playedPairs matchesCount [])) < 2"
  then show "scheduleRounds_loop remainingPairs playedPairs matchesCount builtRounds = Some builtRounds"
    by (subst scheduleRounds_loop.simps) (auto split: prod.splits)
next
  assume "length (fst (scheduleRounds_pairs_scan pairs [] {} [])) \<noteq> 2"
  then show "scheduleRounds_pairs_loop pairs pairRounds = Some pairRounds"
    by (subst scheduleRounds_pairs_loop.simps) (auto split: prod.splits)
qed

theorem C3_full_rounds_witness:
  "(4 :: nat) \<le> 4 \<and> (4 :: nat) \<le> 15
   \<and> (\<exists>s. regenerateSchedule 4 = Some s \<and> length s = 3 \<and> (\<forall>r \<in> set s. length r = 2))
   \<and> (\<exists>s. scheduleRounds 4 = Some s \<and> length s = 3 \<and> (\<forall>r \<in> set s. length r = 2))
   \<and> (\<exists>s. seededSchedule 4 = Some s \<and> length s = 3 \<and> (\<forall>r \<in> set s. length r = 2))
   \<and> length (groupRounds_scan [mkMatch (1, 2), mkMatch (1, 3)] {} []) < 2
   \<and> groupRounds_loop [mkMatch (1, 2), mkMatch (1, 3)] [] = Some []
   \<and> length (fst (scheduleRounds_scan (sort_key (pairSum initialMatchesCount) [(1, 3), (2, 3)])
                     {} initialPlayedPairs initialMatchesCount [])) < 2
   \<and> scheduleRounds_loop [(1, 3), (2, 3)] initialPlayedPairs initialMatchesCount [round1]
        = Some [round1]
   \<and> length (fst (scheduleRounds_pairs_scan [(1, 3), (2, 3)] [] {} [])) \<noteq> 2
   \<and> scheduleRounds_pairs_loop [(1, 3), (2, 3)] [] = Some []"
proof -
  have h: "(4 :: nat) \<le> 4" "(4 :: nat) \<le> 15" by simp_all
  have a: "length (groupRounds_scan [mkMatch (1, 2), mkMatch (1, 3)] {} []) < 2"
    by (simp add: mkMatch_def)
  have b: "length (fst (scheduleRounds_scan (sort_key (pairSum initialMatchesCount) [(1, 3), (2, 3)])
                     {} initialPlayedPairs initialMatchesCount [])) < 2"
    by (simp add: pairSum_def initialMatchesCount_def initialPlayedPairs_def mkMatch_def)
  have c: "length (fst (scheduleRounds_pairs_scan [(1, 3), (2, 3)] [] {} [])) \<noteq> 2"
    by simp
  note t = C3_full_rounds[OF h, where remaining = "[mkMatch (1, 2), mkMatch (1, 3)]"
             and rounds = "[]" and matchesCount = initialMatchesCount
             and remainingPairs = "[(1, 3), (2, 3)]" and playedPairs = initialPlayedPairs
             and builtRounds = "[round1]"
             and pairs = "[(1, 3), (2, 3)]" and pairRounds = "[]"]
  show ?thesis
    using t a b c regenerateSchedule_4 scheduleRounds_4 seededSchedule_4 by simp
qed

text \<open>
  C4. For every team count \<open>N \<ge> 4\<close>, the schedule of a fixed-opening variant starts with
  the round of the two matches (1,2) and (3,4), in that order: in the load-balanced
  variant, in the body of the seeded precomputation, and in the table entry the seeded
  application reads (which exists for \<open>N \<le> 15\<close>).
\<close>

theorem C4_fixed_opening:
  assumes "4 \<le> N"
  shows "(\<exists>rest. scheduleRounds N =
            Some ([\<lparr>teams = (1, 2), complete = False\<rparr>, \<lparr>teams = (3, 4), complete = False\<rparr>] # rest))
       \<and> (\<exists>rest. precomputeSchedules_body N = Some ([(1, 2), (3, 4)] # rest))
       \<and> (N \<le> 15 \<longrightarrow> (\<exists>rest. seededSchedule N = Some ([(1, 2), (3, 4)] # rest)))"
proof (intro conjI impI)
  show "\<exists>rest. scheduleRounds N =
            Some ([\<lparr>teams = (1, 2), complete = False\<rparr>, \<lparr>teams = (3, 4), complete = False\<rparr>] # rest)"
    using scheduleRounds_props[of N] unfolding round1_def by blast
  show b: "\<exists>rest. precomputeSchedules_body N = Some ([(1, 2), (3, 4)] # rest)"
    using precomputeSchedules_body_props[of N] unfolding firstRound_def by blast
  assume "N \<le> 15"
  with assms b show "\<exists>rest. seededSchedule N = Some ([(1, 2), (3, 4)] # rest)"
    by (simp add: seededSchedule_inside)
qed

theorem C4_fixed_opening_witness:
  "(4 :: nat) \<le> 7 \<and> (7 :: nat) \<le> 15
   \<and> (\<exists>rest. scheduleRounds 7 =
            Some ([\<lparr>teams = (1, 2), complete = False\<rparr>, \<lparr>teams = (3, 4), complete = False\<rparr>] # rest))
   \<and> (\<exists>rest. precomputeSchedules_body 7 = Some ([(1, 2), (3, 4)] # rest))
   \<and> (\<exists>rest. seededSchedule 7 = Some ([(1, 2), (3, 4)] # rest))"
proof -
  have h: "(4 :: nat) \<le> 7" by simp
  show ?thesis using C4_fixed_opening[OF h] by simp
qed

text \<open>
  C5. The seeded generation is determined by the team count alone. For every \<open>N\<close> from 4
  to 15 the schedule the application reads from the table built once by
  \<open>precomputeSchedules\<close> is the schedule a separate run of the generation body yields for
  \<open>N\<close>; nothing of the runs for other team counts reaches it, since each call of
  \<open>seededShuffle\<close> starts its generator from the seed. The shuffle itself only permutes
  its input.
\<close>

theorem C5_seeded_deterministic:
  assumes "4 \<le> N" and "N \<le> 15"
  shows "(\<exists>s. seededSchedule N = Some s \<and> precomputeSchedules_body N = Some s)
       \<and> mset (seededShuffle array N) = mset array"
proof (intro conjI)
  show "\<exists>s. seededSchedule N = Some s \<and> precomputeSchedules_body N = Some s"
    using precomputeSchedules_body_props[of N] seededSchedule_inside[OF assms] by force
  show "mset (seededShuffle array N) = mset array"
    by (rule seededShuffle_mset)
qed

theorem C5_seeded_deterministic_witness:
  "(4 :: nat) \<le> 4 \<and> (4 :: nat) \<le> 15
   \<and> seededSchedule 4 = Some [[(1, 2), (3, 4)], [(1, 4), (2, 3)], [(1, 3), (2, 4)]]
   \<and> precomputeSchedules_body 4 = Some [[(1, 2), (3, 4)], [(1, 4), (2, 3)], [(1, 3), (2, 4)]]
   \<and> mset (seededShuffle [(1 :: nat, 3 :: nat), (1, 4), (2, 3), (2, 4)] 4)
       = mset [(1 :: nat, 3 :: nat), (1, 4), (2, 3), (2, 4)]"
proof -
  have h: "(4 :: nat) \<le> 4" "(4 :: nat) \<le> 15" by simp_all
  note t = C5_seeded_deterministic[OF h,
             where array = "[(1 :: nat, 3 :: nat), (1, 4), (2, 3), (2, 4)]"]
  from t have a: "\<exists>s. seededSchedule 4 = Some s \<and> precomputeSchedules_body 4 = Some s"
    by (rule conjunct1)
  from t have b: "mset (seededShuffle [(1 :: nat, 3 :: nat), (1, 4), (2, 3), (2, 4)] 4)
                  = mset [(1 :: nat, 3 :: nat), (1, 4), (2, 3), (2, 4)]"
    by (rule conjunct2)
  from a precomputeSchedules_body_4
  have "seededSchedule 4 = Some [[(1, 2), (3, 4)], [(1, 4), (2, 3)], [(1, 3), (2, 4)]]"
    by auto
  with b precomputeSchedules_body_4 show ?thesis by simp
qed

text \<open>
  C6. For four teams, both fixed-opening variants yield three rounds of two matches each;
  the first round is (1,2),(3,4) and the six matches are the six pairs of the four teams.
\<close>

theorem C6_four_teams:
  "(\<exists>s. scheduleRounds 4 = Some s \<and> map length s = [2, 2, 2]
         \<and> map teams (hd s) = [(1, 2), (3, 4)]
         \<and> mset (map teams (concat s)) = mset (generatePairs 4))
   \<and> (\<exists>s. seededSchedule 4 = Some s \<and> map length s = [2, 2, 2]
         \<and> hd s = [(1, 2), (3, 4)]
         \<and> mset (concat s) = mset (generatePairs 4))
   \<and> length (generatePairs 4) = 6"
proof -
  have g: "generatePairs 4 = [(1, 2), (1, 3), (1, 4), (2, 3), (2, 4), (3, 4)]"
    by code_simp
  show ?thesis
    unfolding scheduleRounds_4 seededSchedule_4 g
    by (simp add: mkMatch_def add_mset_commute)
qed

text \<open>
  C7, as amended. The round builder has no failure mode: for every team count, inside or
  outside the range from 4 to 15, each variant returns a schedule.
\<close>

theorem C7_builder_returns:
  "(\<exists>s. scheduleRounds teamCount = Some s)
   \<and> (\<exists>s. regenerateSchedule teamCount = Some s)
   \<and> (\<exists>s. seededSchedule teamCount = Some s)"
proof (intro conjI)
  show "\<exists>s. scheduleRounds teamCount = Some s"
    using scheduleRounds_props[of teamCount] by blast
  show "\<exists>s. regenerateSchedule teamCount = Some s"
    using regenerateSchedule_bounded[of teamCount] by blast
  show "\<exists>s. seededSchedule teamCount = Some s"
  proof (cases "4 \<le> teamCount \<and> teamCount \<le> 15")
    case True
    then show ?thesis
      using precomputeSchedules_body_props[of teamCount] seededSchedule_inside[of teamCount]
      by force
  next
    case False
    then have "teamCount < 4 \<or> 15 < teamCount" by auto
    then show ?thesis by (simp add: seededSchedule_outside)
  qed
qed

text \<open>
  C7, counterexample to the claim as stated: for the team count 3, outside the range, the
  builders return a schedule instead of failing.
\<close>

theorem C7_out_of_range_counterexample:
  "scheduleRounds 3 = Some [[mkMatch (1, 2), mkMatch (3, 4)]]
   \<and> regenerateSchedule 3 = Some []
   \<and> generatePairs 3 = [(1, 2), (1, 3), (2, 3)]"
  by code_simp

text \<open>
  C8. Each of the three build loops returns for every list of pairs (and every state of
  the other loop variables), and an iteration that does not leave the loop shortens the
  remaining list by exactly the two accepted pairs.
\<close>

theorem C8_builder_terminates:
  "(\<exists>r. groupRounds_loop remaining rounds = Some r)
   \<and> (\<exists>r. scheduleRounds_loop remainingPairs playedPairs matchesCount builtRounds = Some r)
   \<and> (\<exists>r. scheduleRounds_pairs_loop pairs pairRounds = Some r)
   \<and> (\<not> length (groupRounds_scan remaining {} []) < 2
        \<longrightarrow> length (groupRounds_remove (groupRounds_scan remaining {} []) remaining) + 2
            = length remaining)
   \<and> (\<not> length (fst (scheduleRounds_scan (sort_key (pairSum matchesCount) remainingPairs)
                        {} playedPairs matchesCount [])) < 2
        \<longrightarrow> length (scheduleRounds_remove
                      (fst (scheduleRounds_scan (sort_key (pairSum matchesCount) remainingPairs)
                              {} playedPairs matchesCount []))
                      (sort_key (pairSum matchesCount) remainingPairs)) + 2
            = length remainingPairs)
   \<and> (length (fst (scheduleRounds_pairs_scan pairs [] {} [])) = 2
        \<longrightarrow> length (snd (scheduleRounds_pairs_scan pairs [] {} [])) + 2 = length pairs)"
proof (intro conjI impI)
  show "\<exists>r. groupRounds_loop remaining rounds = Some r"
    using groupRounds_loop_rule[where I = "\<lambda>_ _. True" and remaining = remaining
            and rounds = rounds] by simp
  show "\<exists>r. scheduleRounds_loop remainingPairs playedPairs matchesCount builtRounds = Some r"
    using scheduleRounds_loop_rule[where I = "\<lambda>_ _. True" and remainingPairs = remainingPairs
            and rounds = builtRounds and playedPairs = playedPairs
            and matchesCount = matchesCount] by simp
  show "\<exists>r. scheduleRounds_pairs_loop pairs pairRounds = Some r"
    using scheduleRounds_pairs_loop_rule[where I = "\<lambda>_ _. True" and remaining = pairs
            and rounds = pairRounds] by simp
next
  assume "\<not> length (groupRounds_scan remaining {} []) < 2"
  then show "length (groupRounds_remove (groupRounds_scan remaining {} []) remaining) + 2
            = length remaining"
    by (rule groupRounds_remove_length)
next
  let ?sorted = "sort_key (pairSum matchesCount) remainingPairs"
  let ?sc = "scheduleRounds_scan ?sorted {} playedPairs matchesCount []"
  assume full: "\<not> length (fst ?sc) < 2"
  have "?sc = (fst ?sc, fst (snd ?sc), snd (snd ?sc))" by simp
  from scheduleRounds_remove_step(1)[OF this full]
  show "length (scheduleRounds_remove (fst ?sc) ?sorted) + 2 = length remainingPairs"
    by simp
next
  assume full: "length (fst (scheduleRounds_pairs_scan pairs [] {} [])) = 2"
  have "size (mset (fst (scheduleRounds_pairs_scan pairs [] {} []))
          + mset (snd (scheduleRounds_pairs_scan pairs [] {} []))) = size (mset pairs)"
    using scheduleRounds_pairs_scan_mset[of pairs "[]" "{}" "[]"] by simp
  with full show "length (snd (scheduleRounds_pairs_scan pairs [] {} [])) + 2 = length pairs"
    by simp
qed

theorem C8_builder_terminates_witness:
  "\<not> length (groupRounds_scan (map mkMatch [(1, 2), (1, 3), (3, 4)]) {} []) < 2
   \<and> length (groupRounds_remove (groupRounds_scan (map mkMatch [(1, 2), (1, 3), (3, 4)]) {} [])
               (map mkMatch [(1, 2), (1, 3), (3, 4)])) + 2 = 3
   \<and> \<not> length (fst (scheduleRounds_scan
                      (sort_key (pairSum initialMatchesCount) [(1, 3), (1, 4), (2, 4)])
                      {} initialPlayedPairs initialMatchesCount [])) < 2
   \<and> length (scheduleRounds_remove
               (fst (scheduleRounds_scan
                       (sort_key (pairSum initialMatchesCount) [(1, 3), (1, 4), (2, 4)])
                       {} initialPlayedPairs initialMatchesCount []))
               (sort_key (pairSum initialMatchesCount) [(1, 3), (1, 4), (2, 4)])) + 2 = 3
   \<and> length (fst (scheduleRounds_pairs_scan [(1, 3), (1, 4), (2, 4)] [] {} [])) = 2
   \<and> length (snd (scheduleRounds_pairs_scan [(1, 3), (1, 4), (2, 4)] [] {} [])) + 2 = 3
   \<and> groupRounds_loop (map mkMatch [(1, 2), (1, 3), (3, 4)]) [] \<noteq> None
   \<and> scheduleRounds_loop [(1, 3), (1, 4), (2, 4)] initialPlayedPairs initialMatchesCount [round1]
        \<noteq> None
   \<and> scheduleRounds_pairs_loop [(1, 3), (1, 4), (2, 4)] [] \<noteq> None"
proof -
  have a: "\<not> length (groupRounds_scan (map mkMatch [(1, 2), (1, 3), (3, 4)]) {} []) < 2"
    by (simp add: mkMatch_def)
  have b: "\<not> length (fst (scheduleRounds_scan
                      (sort_key (pairSum initialMatchesCount) [(1, 3), (1, 4), (2, 4)])
                      {} initialPlayedPairs initialMatchesCount [])) < 2"
    by (simp add: pairSum_def initialMatchesCount_def initialPlayedPairs_def mkMatch_def)
  have c: "length (fst (scheduleRounds_pairs_scan [(1, 3), (1, 4), (2, 4)] [] {} [])) = 2"
    by simp
  note t = C8_builder_terminates[where remaining = "map mkMatch [(1, 2), (1, 3), (3, 4)]"
             and rounds = "[]" and remainingPairs = "[(1, 3), (1, 4), (2, 4)]"
             and playedPairs = initialPlayedPairs and matchesCount = initialMatchesCount
             and builtRounds = "[round1]" and pairs = "[(1, 3), (1, 4), (2, 4)]"
             and pairRounds = "[]"]
  from t a b c show ?thesis by auto
qed

text \<open>
  C9, as amended. Toggling the same address twice restores the complete flag of every
  match. Where the flag is kept inside the match (\<open>toggleComplete\<close>) the whole rounds
  state is restored. Where it is kept in \<open>completedMatches\<close> (\<open>toggleMatchComplete\<close>)
  the flag read for every address is restored; the object itself is restored only up to
  the order of the court indices and an entry with an empty array.
\<close>

theorem C9_toggle_twice:
  "toggleComplete roundIndex courtIndex (toggleComplete roundIndex courtIndex rounds) = rounds
   \<and> isCompleted
         (toggleMatchComplete roundIndex courtIndex
            (toggleMatchComplete roundIndex courtIndex completedMatches)) r c
       = isCompleted completedMatches r c"
  by (simp add: toggleComplete_twice isCompleted_toggle_twice)

text \<open>
  C9, counterexample to the claim as stated. In the seeded application for four teams the
  address (0, 0) names the match (1,2). From the empty completion object, toggling it
  twice leaves the entry \<open>0: []\<close>, not the empty object; and from \<open>0: [0, 1]\<close> it leaves
  \<open>0: [1, 0]\<close>.
\<close>

theorem C9_state_not_restored_counterexample:
  "seededSchedule 4 = Some [[(1, 2), (3, 4)], [(1, 4), (2, 3)], [(1, 3), (2, 4)]]
   \<and> toggleMatchComplete 0 0 (toggleMatchComplete 0 0 Map.empty) 0 = Some []
   \<and> toggleMatchComplete 0 0 (toggleMatchComplete 0 0 Map.empty) \<noteq> Map.empty
   \<and> toggleMatchComplete 0 0 (toggleMatchComplete 0 0 [0 \<mapsto> [0, 1]]) 0 = Some [1, 0]"
  by (simp add: seededSchedule_4 toggleMatchComplete_def Let_def newSet_def)

text \<open>
  C10. \<open>toggleComplete\<close> leaves the teams of every match and the shape of the rounds
  unchanged, leaves every match at another address unchanged, flips the flag of the
  addressed match, and returns its input when the address names no match.
\<close>

theorem C10_toggle_frame:
  "map (map teams) (toggleComplete roundIndex courtIndex rounds) = map (map teams) rounds
   \<and> (i < length rounds \<and> j < length (rounds ! i) \<and> (i, j) \<noteq> (roundIndex, courtIndex)
        \<longrightarrow> toggleComplete roundIndex courtIndex rounds ! i ! j = rounds ! i ! j)
   \<and> (roundIndex < length rounds \<and> courtIndex < length (rounds ! roundIndex)
        \<longrightarrow> toggleComplete roundIndex courtIndex rounds ! roundIndex ! courtIndex
            = (rounds ! roundIndex ! courtIndex)
                \<lparr>complete := \<not> complete (rounds ! roundIndex ! courtIndex)\<rparr>)
   \<and> (\<not> (roundIndex < length rounds \<and> courtIndex < length (rounds ! roundIndex))
        \<longrightarrow> toggleComplete roundIndex courtIndex rounds = rounds)"
proof (intro conjI impI)
  show "map (map teams) (toggleComplete roundIndex courtIndex rounds) = map (map teams) rounds"
    by (rule toggleComplete_teams)
next
  assume "i < length rounds \<and> j < length (rounds ! i) \<and> (i, j) \<noteq> (roundIndex, courtIndex)"
  then show "toggleComplete roundIndex courtIndex rounds ! i ! j = rounds ! i ! j"
    by (auto simp: toggleComplete_nth)
next
  assume "roundIndex < length rounds \<and> courtIndex < length (rounds ! roundIndex)"
  then show "toggleComplete roundIndex courtIndex rounds ! roundIndex ! courtIndex
            = (rounds ! roundIndex ! courtIndex)
                \<lparr>complete := \<not> complete (rounds ! roundIndex ! courtIndex)\<rparr>"
    by (simp add: toggleComplete_nth)
next
  assume "\<not> (roundIndex < length rounds \<and> courtIndex < length (rounds ! roundIndex))"
  then show "toggleComplete roundIndex courtIndex rounds = rounds"
    by (rule toggleComplete_noop)
qed

theorem C10_toggle_frame_witness:
  "toggleComplete 0 1 [[mkMatch (1, 2), mkMatch (3, 4)], [mkMatch (1, 3), mkMatch (2, 4)]] ! 0 ! 1
     = \<lparr>teams = (3, 4), complete = True\<rparr>
   \<and> toggleComplete 0 1 [[mkMatch (1, 2), mkMatch (3, 4)], [mkMatch (1, 3), mkMatch (2, 4)]] ! 1 ! 0
     = mkMatch (1, 3)
   \<and> map (map teams)
         (toggleComplete 0 1 [[mkMatch (1, 2), mkMatch (3, 4)], [mkMatch (1, 3), mkMatch (2, 4)]])
     = [[(1, 2), (3, 4)], [(1, 3), (2, 4)]]
   \<and> toggleComplete 2 0 [[mkMatch (1, 2), mkMatch (3, 4)], [mkMatch (1, 3), mkMatch (2, 4)]]
     = [[mkMatch (1, 2), mkMatch (3, 4)], [mkMatch (1, 3), mkMatch (2, 4)]]
   \<and> toggleComplete 0 2 [[mkMatch (1, 2), mkMatch (3, 4)], [mkMatch (1, 3), mkMatch (2, 4)]]
     = [[mkMatch (1, 2), mkMatch (3, 4)], [mkMatch (1, 3), mkMatch (2, 4)]]"
proof -
  let ?rs = "[[mkMatch (1, 2), mkMatch (3, 4)], [mkMatch (1, 3), mkMatch (2, 4)]]"
  note t = C10_toggle_frame[where rounds = ?rs]
  have in_range: "(0 :: nat) < length ?rs \<and> (1 :: nat) < length (?rs ! 0)" by simp
  have other: "(1 :: nat) < length ?rs \<and> (0 :: nat) < length (?rs ! 1)
                 \<and> (1 :: nat, 0 :: nat) \<noteq> (0, 1)"
    by simp
  have out1: "\<not> ((2 :: nat) < length ?rs \<and> (0 :: nat) < length (?rs ! 2))" by simp
  have out2: "\<not> ((0 :: nat) < length ?rs \<and> (2 :: nat) < length (?rs ! 0))" by simp
  have a: "toggleComplete 2 0 ?rs = ?rs"
    using t[where roundIndex = 2 and courtIndex = 0] out1 by blast
  have b: "toggleComplete 0 2 ?rs = ?rs"
    using t[where roundIndex = 0 and courtIndex = 2] out2 by blast
  have c: "toggleComplete 0 1 ?rs ! 0 ! 1 = (?rs ! 0 ! 1)\<lparr>complete := \<not> complete (?rs ! 0 ! 1)\<rparr>"
    using t[where roundIndex = 0 and courtIndex = 1] in_range by blast
  have d: "toggleComplete 0 1 ?rs ! 1 ! 0 = ?rs ! 1 ! 0"
    using t[where roundIndex = 0 and courtIndex = 1 and i = 1 and j = 0] other by blast
  have e: "map (map teams) (toggleComplete 0 1 ?rs) = map (map teams) ?rs"
    using t[where roundIndex = 0 and courtIndex = 1] by blast
  from a b c d e show ?thesis by (simp add: mkMatch_def)
qed

end
